theory Spec2Isabelle
  imports Main "HOL-Library.Char_ord"
begin

unbundle bit_operations_syntax

section \<open>Errors, tokens and the lexer state\<close>

text \<open>
  The C code raises every failure through \<^verbatim>\<open>fz_css_error\<close>, which throws the message
  together with the current line. The model returns the failure as a value. The lexer can
  also step its read pointer beyond the terminating NUL of the source (undefined behaviour
  in C); the model gives that outcome a result of its own, \<open>Read_past_terminator\<close>.
\<close>

datatype css_error = Css_syntax_error string int | Read_past_terminator

type_synonym 'a result = "css_error + 'a"

fun res_bind :: "'a result \<Rightarrow> ('a \<Rightarrow> 'b result) \<Rightarrow> 'b result" where
  "res_bind (Inl e) f = Inl e"
| "res_bind (Inr x) f = f x"

text \<open>
  Modelled from the spec: the token kinds \<^verbatim>\<open>CSS_KEYWORD\<close> .. \<^verbatim>\<open>CSS_URI\<close> are enum constants of
  \<^verbatim>\<open>mupdf/html.h\<close>, which is not part of the sources at hand. A token is an \<^verbatim>\<open>int\<close> in C: a
  byte of the input standing for itself, \<^verbatim>\<open>EOF\<close>, or one of the seven kinds; the model takes
  the kinds to be different from each other, from every byte and from \<^verbatim>\<open>EOF\<close>. Bytes are
  read as unsigned (the character classes compare against 128 and 255).
\<close>

datatype token =
  Byte char | EOF
  | CSS_KEYWORD | CSS_STRING | CSS_NUMBER | CSS_LENGTH | CSS_PERCENT | CSS_COLOR | CSS_URI

abbreviation NUL :: char where "NUL \<equiv> CHR 0x00"

text \<open>
  \<^verbatim>\<open>struct lexbuf\<close>. \<open>buf_s\<close> is the memory from the read pointer \<^verbatim>\<open>s\<close> to the terminating NUL
  (inclusive). \<open>buf_string\<close> is the scratch buffer \<^verbatim>\<open>string[1024]\<close>, held as the list of its
  leading bytes that have been written so far; the bytes behind them read as NUL.
  The fields \<^verbatim>\<open>ctx\<close> and \<^verbatim>\<open>file\<close> play no part in the result and are left out.
\<close>

record lexbuf =
  buf_s :: "char list"
  buf_line :: int
  buf_lookahead :: token
  buf_c :: char
  buf_color :: int
  buf_string_len :: nat
  buf_string :: "char list"

definition fz_css_error :: "lexbuf \<Rightarrow> string \<Rightarrow> 'a result" where
  "fz_css_error buf msg = Inl (Css_syntax_error msg (buf_line buf))"

text \<open>\<^verbatim>\<open>fz_strdup\<close> copies a C string: the bytes before the first NUL.\<close>

definition fz_strdup :: "char list \<Rightarrow> string" where
  "fz_strdup p = takeWhile (\<lambda>ch. ch \<noteq> NUL) p"

text \<open>Storing one byte at an index of the scratch buffer.\<close>

definition poke :: "char list \<Rightarrow> nat \<Rightarrow> char \<Rightarrow> char list" where
  "poke xs i ch = (xs @ replicate (Suc i - length xs) NUL)[i := ch]"

definition css_lex_next :: "lexbuf \<Rightarrow> lexbuf result" where
  "css_lex_next buf = (case buf_s buf of
      [] \<Rightarrow> Inl Read_past_terminator
    | x # xs \<Rightarrow> Inr (buf\<lparr>buf_c := x, buf_s := xs,
          buf_line := (if x = CHR 0x0A then buf_line buf + 1 else buf_line buf)\<rparr>))"

text \<open>
  \<^verbatim>\<open>css_lex_init\<close>: the source is a C string, so the memory read is the bytes of \<open>src\<close>
  followed by NUL. \<^verbatim>\<open>lookahead\<close> is not set by the C code (it is assigned by the first
  \<^verbatim>\<open>next\<close>); the model starts it at \<open>EOF\<close>.
\<close>

definition css_lex_init :: "string \<Rightarrow> lexbuf result" where
  "css_lex_init src =
     res_bind (css_lex_next \<lparr>buf_s = src @ [NUL], buf_line = 1, buf_lookahead = EOF,
                  buf_c = NUL, buf_color = 0, buf_string_len = 0, buf_string = []\<rparr>)
       (\<lambda>buf. Inr (buf\<lparr>buf_color := 0, buf_string_len := 0\<rparr>))"

definition iswhite :: "char \<Rightarrow> bool" where
  "iswhite ch \<longleftrightarrow> ch = CHR '' '' \<or> ch = CHR 0x09 \<or> ch = CHR 0x0D \<or> ch = CHR 0x0A \<or> ch = CHR 0x0C"

definition isnmstart :: "char \<Rightarrow> bool" where
  "isnmstart ch \<longleftrightarrow> ch = CHR 0x5C \<or> ch = CHR ''_'' \<or> (CHR ''a'' \<le> ch \<and> ch \<le> CHR ''z'') \<or>
     (CHR ''A'' \<le> ch \<and> ch \<le> CHR ''Z'') \<or> (CHR 0x80 \<le> ch \<and> ch \<le> CHR 0xFF)"

definition isnmchar :: "char \<Rightarrow> bool" where
  "isnmchar ch \<longleftrightarrow> ch = CHR 0x5C \<or> ch = CHR ''_'' \<or> (CHR ''a'' \<le> ch \<and> ch \<le> CHR ''z'') \<or>
     (CHR ''A'' \<le> ch \<and> ch \<le> CHR ''Z'') \<or> (CHR ''0'' \<le> ch \<and> ch \<le> CHR ''9'') \<or> ch = CHR ''-'' \<or>
     (CHR 0x80 \<le> ch \<and> ch \<le> CHR 0xFF)"

definition isdigit :: "char \<Rightarrow> bool" where
  "isdigit ch \<longleftrightarrow> CHR ''0'' \<le> ch \<and> ch \<le> CHR ''9''"

definition css_push_char :: "lexbuf \<Rightarrow> char \<Rightarrow> lexbuf result" where
  "css_push_char buf ch =
    (if buf_string_len buf + 1 \<ge> 1024 then fz_css_error buf ''token too long''
     else Inr (buf\<lparr>buf_string := poke (buf_string buf) (buf_string_len buf) ch,
                   buf_string_len := buf_string_len buf + 1\<rparr>))"

definition css_lex_accept :: "lexbuf \<Rightarrow> char \<Rightarrow> (bool \<times> lexbuf) result" where
  "css_lex_accept buf t =
    (if buf_c buf = t then res_bind (css_lex_next buf) (\<lambda>b. Inr (True, b))
     else Inr (False, buf))"

definition css_lex_expect :: "lexbuf \<Rightarrow> char \<Rightarrow> lexbuf result" where
  "css_lex_expect buf t =
    res_bind (css_lex_accept buf t) (\<lambda>(ok, b).
      if ok then Inr b else fz_css_error b ''unexpected character'')"

definition ishex :: "char \<Rightarrow> int option" where
  "ishex ch =
    (if CHR ''0'' \<le> ch \<and> ch \<le> CHR ''9'' then Some (of_char ch - of_char (CHR ''0''))
     else if CHR ''A'' \<le> ch \<and> ch \<le> CHR ''F'' then Some (of_char ch - of_char (CHR ''A'') + 0xA)
     else if CHR ''a'' \<le> ch \<and> ch \<le> CHR ''f'' then Some (of_char ch - of_char (CHR ''a'') + 0xA)
     else None)"

definition css_lex_accept_hex :: "lexbuf \<Rightarrow> (int option \<times> lexbuf) result" where
  "css_lex_accept_hex buf =
    (case ishex (buf_c buf) of
       Some v \<Rightarrow> res_bind (css_lex_next buf) (\<lambda>b. Inr (Some v, b))
     | None \<Rightarrow> Inr (None, buf))"


section \<open>Sequencing and postconditions\<close>

lemma res_bind_cong [fundef_cong]:
  "m = m' \<Longrightarrow> (\<And>x. m' = Inr x \<Longrightarrow> f x = f' x) \<Longrightarrow> res_bind m f = res_bind m' f'"
  by (cases m') auto

lemma res_bind_weak_cong [cong]: "m = m' \<Longrightarrow> res_bind m f = res_bind m' f"
  by simp

lemma res_bind_Inr_iff: "res_bind m f = Inr y \<longleftrightarrow> (\<exists>x. m = Inr x \<and> f x = Inr y)"
  by (cases m) auto

lemma res_bind_assoc: "res_bind (res_bind m f) g = res_bind m (\<lambda>x. res_bind (f x) g)"
  by (cases m) auto

lemma res_bind_if: "res_bind (if c then a else b) f = (if c then res_bind a f else res_bind b f)"
  by simp

lemma res_bind_case_prod:
  "res_bind (case_prod g x) f = case_prod (\<lambda>a b. res_bind (g a b) f) x"
  by (cases x) simp

lemma res_bind_case_option:
  "res_bind (case_option a g x) f = case_option (res_bind a f) (\<lambda>v. res_bind (g v) f) x"
  by (cases x) simp_all

lemma fz_css_error_not_Inr [simp]: "fz_css_error buf msg \<noteq> Inr x"
  by (simp add: fz_css_error_def)

text \<open>
  \<open>ensures m Q\<close>: when the computation \<open>m\<close> succeeds, its result satisfies \<open>Q\<close>. The rules
  below take a computation apart along its structure; they are used to bound the input that
  every function of the lexer and of the parser leaves unread, which is what makes the
  loops terminate.
\<close>

definition ensures :: "'a result \<Rightarrow> ('a \<Rightarrow> bool) \<Rightarrow> bool" where
  "ensures m Q \<longleftrightarrow> (\<forall>x. m = Inr x \<longrightarrow> Q x)"

lemma ensuresD: "ensures m Q \<Longrightarrow> m = Inr x \<Longrightarrow> Q x"
  by (simp add: ensures_def)

lemma ensures_bind:
  "ensures m Q1 \<Longrightarrow> (\<And>x. m = Inr x \<Longrightarrow> Q1 x \<Longrightarrow> ensures (f x) Q) \<Longrightarrow> ensures (res_bind m f) Q"
  by (cases m) (auto simp: ensures_def)

lemma ensures_if:
  "(c \<Longrightarrow> ensures a Q) \<Longrightarrow> (\<not> c \<Longrightarrow> ensures b Q) \<Longrightarrow> ensures (if c then a else b) Q"
  by simp

lemma ensures_case_prod:
  "(\<And>a b. (a, b) = x \<Longrightarrow> ensures (f a b) Q) \<Longrightarrow> ensures (case_prod f x) Q"
  by (cases x) simp

lemma ensures_case_option:
  "(x = None \<Longrightarrow> ensures a Q) \<Longrightarrow> (\<And>v. x = Some v \<Longrightarrow> ensures (f v) Q) \<Longrightarrow>
   ensures (case_option a f x) Q"
  by (cases x) simp_all

lemma ensures_Inr: "Q v \<Longrightarrow> ensures (Inr v) Q"
  by (simp add: ensures_def)

lemma ensures_Inl: "ensures (Inl e) Q"
  by (simp add: ensures_def)

lemma ensures_error: "ensures (fz_css_error buf msg) Q"
  by (simp add: ensures_def)

lemma ensures_weaken: "ensures m Q' \<Longrightarrow> (\<And>x. m = Inr x \<Longrightarrow> Q' x \<Longrightarrow> Q x) \<Longrightarrow> ensures m Q"
  by (auto simp: ensures_def)

lemmas ensures_step =
  ensures_bind ensures_if ensures_case_prod ensures_case_option ensures_Inr ensures_Inl
  ensures_error

named_theorems ens_facts

text \<open>The bytes still ahead of the read pointer bound every loop of the lexer.\<close>

definition remaining :: "lexbuf \<Rightarrow> nat" where
  "remaining buf = length (buf_s buf)"

lemma ens_next [ens_facts]: "ensures (css_lex_next buf) (\<lambda>b. remaining b < remaining buf)"
  by (auto simp: ensures_def css_lex_next_def remaining_def split: list.splits)

lemma ens_push [ens_facts]: "ensures (css_push_char buf ch) (\<lambda>b. remaining b = remaining buf)"
  by (auto simp: ensures_def css_push_char_def remaining_def split: if_splits)

lemma ens_accept [ens_facts]:
  "ensures (css_lex_accept buf t)
     (\<lambda>r. remaining (snd r) \<le> remaining buf \<and> (fst r \<longrightarrow> remaining (snd r) < remaining buf))"
  by (auto simp: ensures_def css_lex_accept_def res_bind_Inr_iff split: if_splits
           dest!: ensuresD[OF ens_next])

lemma ens_expect [ens_facts]: "ensures (css_lex_expect buf t) (\<lambda>b. remaining b < remaining buf)"
  by (auto simp: ensures_def css_lex_expect_def res_bind_Inr_iff split: if_splits
           dest!: ensuresD[OF ens_accept])

lemma ens_accept_hex [ens_facts]:
  "ensures (css_lex_accept_hex buf)
     (\<lambda>r. remaining (snd r) \<le> remaining buf \<and>
          (fst r \<noteq> None \<longrightarrow> remaining (snd r) < remaining buf))"
  by (auto simp: ensures_def css_lex_accept_hex_def res_bind_Inr_iff split: option.splits
           dest!: ensuresD[OF ens_next])

lemmas css_lex_next_remaining = ensuresD[OF ens_next]
lemmas css_push_char_remaining = ensuresD[OF ens_push]
lemmas css_lex_accept_remaining = ensuresD[OF ens_accept]
lemmas css_lex_expect_remaining = ensuresD[OF ens_expect]

section \<open>The lexer\<close>

text \<open>The digit loops of \<^verbatim>\<open>css_lex_number\<close>: \<^verbatim>\<open>while (c >= '0' && c <= '9') { push; next; }\<close>.\<close>

function css_lex_digits :: "lexbuf \<Rightarrow> lexbuf result" where
  "css_lex_digits buf =
    (if isdigit (buf_c buf) then
       res_bind (css_push_char buf (buf_c buf)) (\<lambda>b1.
       res_bind (css_lex_next b1) (\<lambda>b2. css_lex_digits b2))
     else Inr buf)"
  by pat_completeness auto
termination
  by (relation "measure remaining")
     (auto dest!: css_push_char_remaining css_lex_next_remaining)

declare css_lex_digits.simps [simp del]

lemma ens_css_lex_digits [ens_facts]:
  "ensures (css_lex_digits buf) (\<lambda>b. remaining b \<le> remaining buf \<and>
          (isdigit (buf_c buf) \<longrightarrow> remaining b < remaining buf))"
proof (induction buf rule: css_lex_digits.induct)
  case (1 buf)
  show ?case
    apply (subst css_lex_digits.simps)
    apply (intro ensures_step)
    apply (rule ens_facts | (rule "1.IH"; assumption) | rule ens_facts[THEN ensures_weaken]
         | (rule ensures_weaken, (rule "1.IH"; assumption)) | clarsimp)+
    done
qed

text \<open>The loop of \<^verbatim>\<open>css_lex_keyword\<close> (and of the unit of a length):
  \<^verbatim>\<open>while (isnmchar(c)) { push; next; }\<close>.\<close>

function css_lex_nmchars :: "lexbuf \<Rightarrow> lexbuf result" where
  "css_lex_nmchars buf =
    (if isnmchar (buf_c buf) then
       res_bind (css_push_char buf (buf_c buf)) (\<lambda>b1.
       res_bind (css_lex_next b1) (\<lambda>b2. css_lex_nmchars b2))
     else Inr buf)"
  by pat_completeness auto
termination
  by (relation "measure remaining")
     (auto dest!: css_push_char_remaining css_lex_next_remaining)

declare css_lex_nmchars.simps [simp del]

lemma ens_css_lex_nmchars [ens_facts]:
  "ensures (css_lex_nmchars buf) (\<lambda>b. remaining b \<le> remaining buf)"
proof (induction buf rule: css_lex_nmchars.induct)
  case (1 buf)
  show ?case
    apply (subst css_lex_nmchars.simps)
    apply (intro ensures_step)
    apply (rule ens_facts | (rule "1.IH"; assumption) | rule ens_facts[THEN ensures_weaken]
         | (rule ensures_weaken, (rule "1.IH"; assumption)) | clarsimp)+
    done
qed

definition css_lex_number :: "lexbuf \<Rightarrow> (token \<times> lexbuf) result" where
  "css_lex_number buf =
    res_bind (css_lex_digits buf) (\<lambda>b1.
    res_bind (css_lex_accept b1 (CHR ''.'')) (\<lambda>(dot, b2).
    res_bind (if dot then res_bind (css_push_char b2 (CHR ''.'')) css_lex_digits else Inr b2) (\<lambda>b3.
    res_bind (css_lex_accept b3 (CHR ''%'')) (\<lambda>(pct, b4).
      if pct then
        res_bind (css_push_char b4 (CHR ''%'')) (\<lambda>b5.
        res_bind (css_push_char b5 NUL) (\<lambda>b6. Inr (CSS_PERCENT, b6)))
      else if isnmstart (buf_c b4) then
        res_bind (css_push_char b4 (buf_c b4)) (\<lambda>b5.
        res_bind (css_lex_next b5) (\<lambda>b6.
        res_bind (css_lex_nmchars b6) (\<lambda>b7.
        res_bind (css_push_char b7 NUL) (\<lambda>b8. Inr (CSS_LENGTH, b8)))))
      else
        res_bind (css_push_char b4 NUL) (\<lambda>b5. Inr (CSS_NUMBER, b5))))))"

lemma ens_css_lex_number [ens_facts]:
  "ensures (css_lex_number buf)
     (\<lambda>r. remaining (snd r) \<le> remaining buf \<and>
          (isdigit (buf_c buf) \<longrightarrow> remaining (snd r) < remaining buf))"
  unfolding css_lex_number_def res_bind_if res_bind_assoc
  apply (intro ensures_step)
  apply (rule ens_facts | rule ens_facts[THEN ensures_weaken] | clarsimp)+
  done

definition css_lex_keyword :: "lexbuf \<Rightarrow> (token \<times> lexbuf) result" where
  "css_lex_keyword buf =
    res_bind (css_lex_nmchars buf) (\<lambda>b1.
    res_bind (css_push_char b1 NUL) (\<lambda>b2. Inr (CSS_KEYWORD, b2)))"

lemma ens_css_lex_keyword [ens_facts]:
  "ensures (css_lex_keyword buf) (\<lambda>r. remaining (snd r) \<le> remaining buf)"
  unfolding css_lex_keyword_def
  apply (intro ensures_step)
  apply (rule ens_facts | rule ens_facts[THEN ensures_weaken] | clarsimp)+
  done

text \<open>The loop of \<^verbatim>\<open>css_lex_string\<close>: \<^verbatim>\<open>while (c && c != q) { ... }\<close>.\<close>

function css_lex_string_body :: "lexbuf \<Rightarrow> char \<Rightarrow> lexbuf result" where
  "css_lex_string_body buf q =
    (if buf_c buf \<noteq> NUL \<and> buf_c buf \<noteq> q then
       res_bind (css_lex_accept buf (CHR 0x5C)) (\<lambda>(esc, b1).
         if esc then
           res_bind (css_lex_accept b1 (CHR ''n'')) (\<lambda>(n, b2).
             if n then res_bind (css_push_char b2 (CHR 0x0A)) (\<lambda>b3. css_lex_string_body b3 q)
             else res_bind (css_lex_accept b2 (CHR ''r'')) (\<lambda>(r, b3).
               if r then res_bind (css_push_char b3 (CHR 0x0D)) (\<lambda>b4. css_lex_string_body b4 q)
               else res_bind (css_lex_accept b3 (CHR ''f'')) (\<lambda>(f, b4).
                 if f then res_bind (css_push_char b4 (CHR 0x0C)) (\<lambda>b5. css_lex_string_body b5 q)
                 else res_bind (css_lex_accept b4 (CHR 0x0C)) (\<lambda>(ff, b5).
                   if ff then css_lex_string_body b5 q
                   else res_bind (css_lex_accept b5 (CHR 0x0A)) (\<lambda>(lf, b6).
                     if lf then css_lex_string_body b6 q
                     else res_bind (css_lex_accept b6 (CHR 0x0D)) (\<lambda>(cr, b7).
                       if cr then
                         res_bind (css_lex_accept b7 (CHR 0x0A)) (\<lambda>(_, b8). css_lex_string_body b8 q)
                       else
                         res_bind (css_push_char b7 (buf_c b7)) (\<lambda>b8.
                         res_bind (css_lex_next b8) (\<lambda>b9. css_lex_string_body b9 q))))))))
         else
           res_bind (css_push_char b1 (buf_c b1)) (\<lambda>b2.
           res_bind (css_lex_next b2) (\<lambda>b3. css_lex_string_body b3 q)))
     else Inr buf)"
  by pat_completeness auto
termination
  by (relation "measure (\<lambda>(buf, q). remaining buf)")
     (auto dest!: css_push_char_remaining css_lex_next_remaining css_lex_accept_remaining)

declare css_lex_string_body.simps [simp del]

lemma ens_css_lex_string_body [ens_facts]:
  "ensures (css_lex_string_body buf q) (\<lambda>b. remaining b \<le> remaining buf)"
proof (induction buf q rule: css_lex_string_body.induct)
  case (1 buf q)
  show ?case
    apply (subst css_lex_string_body.simps)
    apply (intro ensures_step)
    apply (rule ens_facts | (rule "1.IH"; assumption) | rule ens_facts[THEN ensures_weaken]
         | (rule ensures_weaken, (rule "1.IH"; assumption)) | clarsimp)+
    done
qed

definition css_lex_string :: "lexbuf \<Rightarrow> char \<Rightarrow> (token \<times> lexbuf) result" where
  "css_lex_string buf q =
    res_bind (css_lex_string_body buf q) (\<lambda>b1.
    res_bind (css_lex_expect b1 q) (\<lambda>b2.
    res_bind (css_push_char b2 NUL) (\<lambda>b3. Inr (CSS_STRING, b3))))"


lemma ens_css_lex_string [ens_facts]:
  "ensures (css_lex_string buf q) (\<lambda>r. remaining (snd r) < remaining buf)"
  unfolding css_lex_string_def
  apply (intro ensures_step)
  apply (rule ens_facts | rule ens_facts[THEN ensures_weaken] | clarsimp)+
  done

text \<open>\<^verbatim>\<open>while (iswhite(buf->c)) css_lex_next(buf);\<close>\<close>

function css_lex_white :: "lexbuf \<Rightarrow> lexbuf result" where
  "css_lex_white buf =
    (if iswhite (buf_c buf) then res_bind (css_lex_next buf) (\<lambda>b1. css_lex_white b1)
     else Inr buf)"
  by pat_completeness auto
termination
  by (relation "measure remaining") (auto dest!: css_lex_next_remaining)

declare css_lex_white.simps [simp del]

lemma ens_css_lex_white [ens_facts]:
  "ensures (css_lex_white buf) (\<lambda>b. remaining b \<le> remaining buf)"
proof (induction buf rule: css_lex_white.induct)
  case (1 buf)
  show ?case
    apply (subst css_lex_white.simps)
    apply (intro ensures_step)
    apply (rule ens_facts | (rule "1.IH"; assumption) | rule ens_facts[THEN ensures_weaken]
         | (rule ensures_weaken, (rule "1.IH"; assumption)) | clarsimp)+
    done
qed

text \<open>\<^verbatim>\<open>while (buf->c == '*') css_lex_next(buf);\<close>\<close>

function css_lex_stars :: "lexbuf \<Rightarrow> lexbuf result" where
  "css_lex_stars buf =
    (if buf_c buf = CHR ''*'' then res_bind (css_lex_next buf) (\<lambda>b1. css_lex_stars b1)
     else Inr buf)"
  by pat_completeness auto
termination
  by (relation "measure remaining") (auto dest!: css_lex_next_remaining)

declare css_lex_stars.simps [simp del]

lemma ens_css_lex_stars [ens_facts]:
  "ensures (css_lex_stars buf) (\<lambda>b. remaining b \<le> remaining buf)"
proof (induction buf rule: css_lex_stars.induct)
  case (1 buf)
  show ?case
    apply (subst css_lex_stars.simps)
    apply (intro ensures_step)
    apply (rule ens_facts | (rule "1.IH"; assumption) | rule ens_facts[THEN ensures_weaken]
         | (rule ensures_weaken, (rule "1.IH"; assumption)) | clarsimp)+
    done
qed

text \<open>
  The body of a comment, entered after \<^verbatim>\<open>/*\<close>: the result is the state from which the C
  code jumps to \<^verbatim>\<open>restart\<close>; running out of input is the error.
\<close>

function css_lex_comment :: "lexbuf \<Rightarrow> lexbuf result" where
  "css_lex_comment buf =
    (if buf_c buf \<noteq> NUL then
       res_bind (css_lex_accept buf (CHR ''*'')) (\<lambda>(star, b1).
         if star then
           res_bind (css_lex_stars b1) (\<lambda>b2.
           res_bind (css_lex_accept b2 (CHR ''/'')) (\<lambda>(slash, b3).
             if slash then Inr b3
             else res_bind (css_lex_next b3) (\<lambda>b4. css_lex_comment b4)))
         else res_bind (css_lex_next b1) (\<lambda>b2. css_lex_comment b2))
     else fz_css_error buf ''unterminated comment'')"
  by pat_completeness auto
termination
  by (relation "measure remaining")
     (auto dest!: css_lex_next_remaining css_lex_accept_remaining ensuresD[OF ens_css_lex_stars])

declare css_lex_comment.simps [simp del]

lemma ens_css_lex_comment [ens_facts]:
  "ensures (css_lex_comment buf) (\<lambda>b. remaining b \<le> remaining buf)"
proof (induction buf rule: css_lex_comment.induct)
  case (1 buf)
  show ?case
    apply (subst css_lex_comment.simps)
    apply (intro ensures_step)
    apply (rule ens_facts | (rule "1.IH"; assumption) | rule ens_facts[THEN ensures_weaken]
         | (rule ensures_weaken, (rule "1.IH"; assumption)) | clarsimp)+
    done
qed

text \<open>
  \<^verbatim>\<open>sprintf(buf->string, "%06x", buf->color)\<close>: the value is printed as an unsigned
  32-bit number in lowercase hexadecimal, padded with zeros to six digits, and stored with
  its terminating NUL at the start of the scratch buffer. \<open>hex_digits 8\<close> gives the eight
  digits of the number; of its leading zeros, the two in front of the sixth digit are dropped.
\<close>

definition hexdigit :: "int \<Rightarrow> char" where
  "hexdigit d = ''0123456789abcdef'' ! nat (d mod 16)"

primrec hex_digits :: "nat \<Rightarrow> int \<Rightarrow> char list" where
  "hex_digits 0 n = []"
| "hex_digits (Suc k) n = hex_digits k (n div 16) @ [hexdigit (n mod 16)]"

definition sprintf_06x :: "int \<Rightarrow> char list" where
  "sprintf_06x v =
    (let ds = hex_digits 8 (v mod 2 ^ 32)
     in drop (min 2 (length (takeWhile (\<lambda>ch. ch = CHR ''0'') ds))) ds)"

definition store_string :: "char list \<Rightarrow> char list \<Rightarrow> char list" where
  "store_string xs ds = ds @ [NUL] @ drop (Suc (length ds)) xs"

text \<open>The block of the \<^verbatim>\<open>#\<close> branch of \<^verbatim>\<open>css_lex\<close>, entered after the \<^verbatim>\<open>#\<close> was accepted.\<close>

definition css_lex_color :: "lexbuf \<Rightarrow> (token \<times> lexbuf) result" where
  "css_lex_color buf =
    res_bind (css_lex_accept_hex buf) (\<lambda>(a, b1).
    case a of None \<Rightarrow> fz_css_error b1 ''invalid color'' | Some a \<Rightarrow>
    res_bind (css_lex_accept_hex b1) (\<lambda>(b, b2).
    case b of None \<Rightarrow> fz_css_error b2 ''invalid color'' | Some b \<Rightarrow>
    res_bind (css_lex_accept_hex b2) (\<lambda>(c, b3).
    case c of None \<Rightarrow> fz_css_error b3 ''invalid color'' | Some c \<Rightarrow>
    res_bind (css_lex_accept_hex b3) (\<lambda>(d, b4).
    res_bind
      (case d of
         None \<Rightarrow>
           Inr (b4\<lparr>buf_color := push_bit 20 a OR push_bit 12 b OR push_bit 4 c\<rparr>)
       | Some d \<Rightarrow>
           res_bind (css_lex_accept_hex b4) (\<lambda>(e, b5).
           case e of None \<Rightarrow> fz_css_error b5 ''invalid color'' | Some e \<Rightarrow>
           res_bind (css_lex_accept_hex b5) (\<lambda>(f, b6).
           case f of None \<Rightarrow> fz_css_error b6 ''invalid color'' | Some f \<Rightarrow>
           Inr (b6\<lparr>buf_color := push_bit 20 a OR push_bit 16 b OR push_bit 12 c OR
                                 push_bit 8 d OR push_bit 4 e OR f\<rparr>))))
      (\<lambda>b7. Inr (CSS_COLOR,
          b7\<lparr>buf_string := store_string (buf_string b7) (sprintf_06x (buf_color b7))\<rparr>))))))"

lemma remaining_update [simp]:
  "remaining (buf\<lparr>buf_color := v\<rparr>) = remaining buf"
  "remaining (buf\<lparr>buf_string := xs\<rparr>) = remaining buf"
  "remaining (buf\<lparr>buf_string_len := n\<rparr>) = remaining buf"
  "remaining (buf\<lparr>buf_lookahead := t\<rparr>) = remaining buf"
  by (simp_all add: remaining_def)

lemma ens_css_lex_color [ens_facts]:
  "ensures (css_lex_color buf) (\<lambda>r. remaining (snd r) \<le> remaining buf)"
  unfolding css_lex_color_def res_bind_case_option res_bind_case_prod res_bind_assoc res_bind.simps
  apply (intro ensures_step)
  apply (rule ens_facts | rule ens_facts[THEN ensures_weaken] | clarsimp)+
  done

text \<open>
  The part of the loop body of \<^verbatim>\<open>css_lex\<close> from the \<^verbatim>\<open>+\<close> branch on; each of its paths
  returns a token or fails.
\<close>

definition css_lex_dispatch :: "lexbuf \<Rightarrow> (token \<times> lexbuf) result" where
  "css_lex_dispatch buf =
    res_bind (css_lex_accept buf (CHR ''+'')) (\<lambda>(plus, b1).
    if plus then
      (if isdigit (buf_c b1) then css_lex_number b1 else Inr (Byte (CHR ''+''), b1))
    else
    res_bind (css_lex_accept b1 (CHR ''.'')) (\<lambda>(dot, b2).
    if dot then
      (if isdigit (buf_c b2) then res_bind (css_push_char b2 (CHR ''.'')) css_lex_number
       else Inr (Byte (CHR ''.''), b2))
    else
    res_bind (css_lex_accept b2 (CHR ''#'')) (\<lambda>(hash, b3).
    if hash then css_lex_color b3
    else
    res_bind (css_lex_accept b3 (CHR 0x22)) (\<lambda>(dq, b4).
    if dq then css_lex_string b4 (CHR 0x22)
    else
    res_bind (css_lex_accept b4 (CHR 0x27)) (\<lambda>(sq, b5).
    if sq then css_lex_string b5 (CHR 0x27)
    else if isdigit (buf_c b5) then css_lex_number b5
    else
    res_bind (css_lex_accept b5 (CHR ''u'')) (\<lambda>(u, b6).
    if u then
      res_bind (css_lex_accept b6 (CHR ''r'')) (\<lambda>(r, b7).
      if r then
        res_bind (css_lex_accept b7 (CHR ''l'')) (\<lambda>(l, b8).
        if l then
          res_bind (css_lex_accept b8 (CHR ''('')) (\<lambda>(paren, b9).
          if paren then
            res_bind (css_lex_expect b9 (CHR '')'')) (\<lambda>b10. Inr (CSS_URI, b10))
          else
            res_bind (css_push_char b9 (CHR ''u'')) (\<lambda>b10.
            res_bind (css_push_char b10 (CHR ''r'')) (\<lambda>b11.
            res_bind (css_push_char b11 (CHR ''l'')) css_lex_keyword)))
        else
          res_bind (css_push_char b8 (CHR ''u'')) (\<lambda>b9.
          res_bind (css_push_char b9 (CHR ''r'')) css_lex_keyword))
      else
        res_bind (css_push_char b7 (CHR ''u'')) css_lex_keyword)
    else if isnmstart (buf_c b6) then
      res_bind (css_push_char b6 (buf_c b6)) (\<lambda>b7.
      res_bind (css_lex_next b7) css_lex_keyword)
    else
      res_bind (css_lex_next b6) (\<lambda>b7. Inr (Byte (buf_c b6), b7))))))))"

lemma ens_css_lex_dispatch [ens_facts]:
  "ensures (css_lex_dispatch buf) (\<lambda>r. remaining (snd r) < remaining buf)"
  unfolding css_lex_dispatch_def
  apply (intro ensures_step)
  apply (rule ens_facts | rule ens_facts[THEN ensures_weaken] | clarsimp)+
  done

text \<open>
  The loop of \<^verbatim>\<open>css_lex\<close> from the label \<^verbatim>\<open>restart\<close>. A \<^verbatim>\<open>goto restart\<close> is a recursive
  call; a \<^verbatim>\<open>continue\<close> tests the loop condition \<^verbatim>\<open>buf->c\<close> first and returns \<^verbatim>\<open>EOF\<close> when
  it fails.
\<close>

function css_lex_restart :: "lexbuf \<Rightarrow> (token \<times> lexbuf) result" where
  "css_lex_restart buf0 =
    res_bind (css_lex_white buf0) (\<lambda>buf.
    if buf_c buf = NUL then Inr (EOF, buf)
    else
    res_bind (css_lex_accept buf (CHR ''/'')) (\<lambda>(slash, b1).
    if slash then
      res_bind (css_lex_accept b1 (CHR ''*'')) (\<lambda>(star, b2).
      if star then res_bind (css_lex_comment b2) (\<lambda>b3. css_lex_restart b3)
      else Inr (Byte (CHR ''/''), b2))
    else
    res_bind (css_lex_accept b1 (CHR ''<'')) (\<lambda>(lt, b2).
    if lt then
      res_bind (css_lex_accept b2 (CHR ''!'')) (\<lambda>(bang, b3).
      if bang then
        res_bind (css_lex_expect b3 (CHR ''-'')) (\<lambda>b4.
        res_bind (css_lex_expect b4 (CHR ''-'')) (\<lambda>b5.
          if buf_c b5 = NUL then Inr (EOF, b5) else css_lex_restart b5))
      else Inr (Byte (CHR ''<''), b3))
    else
    res_bind (css_lex_accept b2 (CHR ''-'')) (\<lambda>(minus, b3).
    if minus then
      res_bind (css_lex_accept b3 (CHR ''-'')) (\<lambda>(minus2, b4).
      if minus2 then
        res_bind (css_lex_expect b4 (CHR ''>'')) (\<lambda>b5.
          if buf_c b5 = NUL then Inr (EOF, b5) else css_lex_restart b5)
      else if isdigit (buf_c b4) then
        res_bind (css_push_char b4 (CHR ''-'')) css_lex_number
      else if isnmstart (buf_c b4) then
        res_bind (css_push_char b4 (CHR ''-'')) (\<lambda>b5.
        res_bind (css_push_char b5 (buf_c b5)) (\<lambda>b6.
        res_bind (css_lex_next b6) css_lex_keyword))
      else Inr (Byte (CHR ''-''), b4))
    else css_lex_dispatch b3))))"
  by pat_completeness auto
termination
  by (relation "measure remaining")
     (auto dest!: css_lex_accept_remaining css_lex_expect_remaining
                  ensuresD[OF ens_css_lex_comment] ensuresD[OF ens_css_lex_white])

declare css_lex_restart.simps [simp del]

lemma ens_css_lex_restart [ens_facts]:
  "ensures (css_lex_restart buf)
     (\<lambda>r. remaining (snd r) \<le> remaining buf \<and>
          (fst r \<noteq> EOF \<longrightarrow> remaining (snd r) < remaining buf))"
proof (induction buf rule: css_lex_restart.induct)
  case (1 buf)
  show ?case
    apply (subst css_lex_restart.simps)
    apply (intro ensures_step)
    apply (rule ens_facts | (rule "1.IH"; assumption) | rule ens_facts[THEN ensures_weaken]
         | (rule ensures_weaken, (rule "1.IH"; assumption)) | clarsimp)+
    done
qed

definition css_lex :: "lexbuf \<Rightarrow> (token \<times> lexbuf) result" where
  "css_lex buf0 =
    (let buf = buf0\<lparr>buf_string_len := 0\<rparr> in
     if buf_c buf \<noteq> NUL then css_lex_restart buf else Inr (EOF, buf))"

lemma ens_css_lex [ens_facts]:
  "ensures (css_lex buf)
     (\<lambda>r. remaining (snd r) \<le> remaining buf \<and>
          (fst r \<noteq> EOF \<longrightarrow> remaining (snd r) < remaining buf))"
  unfolding css_lex_def Let_def
  apply (intro ensures_step)
  apply (rule ens_facts | rule ens_facts[THEN ensures_weaken] | clarsimp)+
  done

section \<open>The token stream\<close>

definition next_token :: "lexbuf \<Rightarrow> lexbuf result" where
  "next_token buf = res_bind (css_lex buf) (\<lambda>(t, b). Inr (b\<lparr>buf_lookahead := t\<rparr>))"

definition accept_token :: "lexbuf \<Rightarrow> token \<Rightarrow> (bool \<times> lexbuf) result" where
  "accept_token buf t =
    (if buf_lookahead buf = t then res_bind (next_token buf) (\<lambda>b. Inr (True, b))
     else Inr (False, buf))"

definition expect_token :: "lexbuf \<Rightarrow> token \<Rightarrow> lexbuf result" where
  "expect_token buf t =
    res_bind (accept_token buf t) (\<lambda>(ok, b).
      if ok then Inr b else fz_css_error b ''unexpected token'')"

definition iscond :: "token \<Rightarrow> bool" where
  "iscond t \<longleftrightarrow> t = Byte (CHR '':'') \<or> t = Byte (CHR ''.'') \<or> t = Byte (CHR ''#'') \<or> t = Byte (CHR ''['')"

text \<open>
  The parser's measure: the unread bytes, and one more while the lookahead token is not
  \<open>EOF\<close>. Every \<^verbatim>\<open>next\<close> from a lookahead other than \<open>EOF\<close> makes it smaller.
\<close>

definition msr :: "lexbuf \<Rightarrow> nat" where
  "msr buf = remaining buf + (if buf_lookahead buf = EOF then 0 else 1)"

lemma ens_next_token [ens_facts]:
  "ensures (next_token buf)
     (\<lambda>b. msr b \<le> msr buf \<and> (buf_lookahead buf \<noteq> EOF \<longrightarrow> msr b < msr buf))"
  unfolding next_token_def
  apply (intro ensures_step)
  apply (rule ens_facts | clarsimp simp: msr_def)+
  done

lemma ens_accept_token [ens_facts]:
  "ensures (accept_token buf t)
     (\<lambda>r. msr (snd r) \<le> msr buf \<and> (fst r \<longrightarrow> t \<noteq> EOF \<longrightarrow> msr (snd r) < msr buf) \<and>
          (\<not> fst r \<longrightarrow> snd r = buf))"
  unfolding accept_token_def
  apply (intro ensures_step)
  apply (rule ens_facts | clarsimp)+
  done

lemma ens_expect_token [ens_facts]:
  "ensures (expect_token buf t)
     (\<lambda>b. msr b \<le> msr buf \<and> (t \<noteq> EOF \<longrightarrow> msr b < msr buf))"
  unfolding expect_token_def
  apply (intro ensures_step)
  apply (rule ens_facts | clarsimp)+
  done

section \<open>The syntax tree\<close>

datatype fz_css_value =
  Css_value (val_type: token) (val_data: string) (val_args: "fz_css_value list")

datatype fz_css_property =
  Css_property (prop_name: string) (prop_value: "fz_css_value list") (prop_spec: int)

definition fz_new_css_value :: "token \<Rightarrow> char list \<Rightarrow> fz_css_value" where
  "fz_new_css_value type data = Css_value type (fz_strdup data) []"

function parse_value :: "lexbuf \<Rightarrow> (fz_css_value \<times> lexbuf) result"
  and parse_value_list :: "lexbuf \<Rightarrow> (fz_css_value list \<times> lexbuf) result" where
  "parse_value buf =
    (if buf_lookahead buf = CSS_KEYWORD then
       res_bind (next_token buf) (\<lambda>b1.
       res_bind (accept_token b1 (Byte (CHR ''(''))) (\<lambda>(paren, b2).
         if paren then
           res_bind (parse_value_list b2) (\<lambda>(as, b3).
           res_bind (expect_token b3 (Byte (CHR '')''))) (\<lambda>b4.
             Inr (Css_value (Byte (CHR ''('')) (fz_strdup (buf_string buf)) as, b4)))
         else Inr (fz_new_css_value CSS_KEYWORD (buf_string buf), b2)))
     else if buf_lookahead buf \<in> {CSS_NUMBER, CSS_LENGTH, CSS_PERCENT, CSS_STRING, CSS_COLOR, CSS_URI} then
       res_bind (next_token buf) (\<lambda>b1.
         Inr (fz_new_css_value (buf_lookahead buf) (buf_string buf), b1))
     else
       res_bind (accept_token buf (Byte (CHR '',''))) (\<lambda>(comma, b1).
       if comma then Inr (fz_new_css_value (Byte (CHR '','')) '','', b1)
       else
       res_bind (accept_token b1 (Byte (CHR ''/''))) (\<lambda>(slash, b2).
       if slash then Inr (fz_new_css_value (Byte (CHR ''/'')) ''/'', b2)
       else fz_css_error b2 ''expected value'')))"
| "parse_value_list buf =
    (if buf_lookahead buf \<noteq> Byte (CHR ''}'') \<and> buf_lookahead buf \<noteq> Byte (CHR '';'') \<and>
        buf_lookahead buf \<noteq> Byte (CHR ''!'') \<and> buf_lookahead buf \<noteq> Byte (CHR '')'') \<and>
        buf_lookahead buf \<noteq> EOF then
       res_bind (parse_value buf) (\<lambda>(v, b1).
       res_bind (parse_value_list b1) (\<lambda>(vs, b2). Inr (v # vs, b2)))
     else Inr ([], buf))"
  by pat_completeness auto

lemma parse_value_msr_dom:
  "parse_value_parse_value_list_dom (Inl buf) \<Longrightarrow>
     ensures (parse_value buf) (\<lambda>r. msr (snd r) < msr buf)"
  "parse_value_parse_value_list_dom (Inr buf) \<Longrightarrow>
     ensures (parse_value_list buf) (\<lambda>r. msr (snd r) \<le> msr buf)"
proof (induction rule: parse_value_parse_value_list.pinduct)
  case (1 buf)
  show ?case
    apply (subst parse_value.psimps[OF "1.hyps"])
    apply (intro ensures_step)
    apply (rule ens_facts | (rule "1.IH"; assumption) | rule ens_facts[THEN ensures_weaken]
         | (rule ensures_weaken, (rule "1.IH"; assumption)) | clarsimp)+
    done
next
  case (2 buf)
  show ?case
    apply (subst parse_value_list.psimps[OF "2.hyps"])
    apply (intro ensures_step)
    apply (rule ens_facts | (rule "2.IH"; assumption) | rule ens_facts[THEN ensures_weaken]
         | (rule ensures_weaken, (rule "2.IH"; assumption)) | clarsimp)+
    done
qed

termination parse_value
  apply (relation "measure (\<lambda>x. case x of Inl buf \<Rightarrow> 2 * msr buf | Inr buf \<Rightarrow> 2 * msr buf + 1)")
  apply simp
   apply (auto dest!: ensuresD[OF ens_next_token] ensuresD[OF ens_accept_token]
                      ensuresD[OF parse_value_msr_dom(1)])
  done

declare parse_value.simps [simp del] parse_value_list.simps [simp del]

lemma ens_parse_value [ens_facts]:
  "ensures (parse_value buf) (\<lambda>r. msr (snd r) < msr buf)"
  and ens_parse_value_list [ens_facts]:
  "ensures (parse_value_list buf') (\<lambda>r. msr (snd r) \<le> msr buf')"
proof (induction buf and buf' rule: parse_value_parse_value_list.induct)
  case (1 buf)
  show ?case
    apply (subst parse_value.simps)
    apply (intro ensures_step)
    apply (rule ens_facts | (rule "1.IH"; assumption) | rule ens_facts[THEN ensures_weaken]
         | (rule ensures_weaken, (rule "1.IH"; assumption)) | clarsimp)+
    done
next
  case (2 buf)
  show ?case
    apply (subst parse_value_list.simps)
    apply (intro ensures_step)
    apply (rule ens_facts | (rule "2.IH"; assumption) | rule ens_facts[THEN ensures_weaken]
         | (rule ensures_weaken, (rule "2.IH"; assumption)) | clarsimp)+
    done
qed


datatype fz_css_condition =
  Css_condition (cond_type: char) (cond_key: string) (cond_val: "string option")

datatype fz_css_selector =
  Css_selector (sel_name: "string option") (sel_combine: char)
    (sel_cond: "fz_css_condition list")
    (sel_left: "fz_css_selector option") (sel_right: "fz_css_selector option")

datatype fz_css_rule =
  Css_rule (rule_selector: "fz_css_selector list") (rule_declaration: "fz_css_property list")
    (rule_garbage: "fz_css_property list")

definition fz_new_css_rule :: "fz_css_selector list \<Rightarrow> fz_css_property list \<Rightarrow> fz_css_rule" where
  "fz_new_css_rule selector declaration = Css_rule selector declaration []"

definition fz_new_css_selector :: "char list option \<Rightarrow> fz_css_selector" where
  "fz_new_css_selector name = Css_selector (map_option fz_strdup name) NUL [] None None"

definition fz_new_css_condition :: "char \<Rightarrow> char list \<Rightarrow> char list option \<Rightarrow> fz_css_condition" where
  "fz_new_css_condition type key val = Css_condition type (fz_strdup key) (map_option fz_strdup val)"

definition fz_new_css_property :: "char list \<Rightarrow> fz_css_value list \<Rightarrow> int \<Rightarrow> fz_css_property" where
  "fz_new_css_property name value spec = Css_property (fz_strdup name) value spec"

definition parse_declaration :: "lexbuf \<Rightarrow> (fz_css_property \<times> lexbuf) result" where
  "parse_declaration buf =
    (if buf_lookahead buf \<noteq> CSS_KEYWORD then fz_css_error buf ''expected keyword in property''
     else
       res_bind (next_token buf) (\<lambda>b1.
       res_bind (expect_token b1 (Byte (CHR '':''))) (\<lambda>b2.
       res_bind (parse_value_list b2) (\<lambda>(vs, b3).
       res_bind (accept_token b3 (Byte (CHR ''!''))) (\<lambda>(bang, b4).
       res_bind (if bang then expect_token b4 CSS_KEYWORD else Inr b4) (\<lambda>b5.
         Inr (fz_new_css_property (buf_string buf) vs 0, b5)))))))"

lemma ens_parse_declaration [ens_facts]:
  "ensures (parse_declaration buf) (\<lambda>r. msr (snd r) < msr buf)"
  unfolding parse_declaration_def res_bind_if res_bind.simps
  apply (intro ensures_step)
  apply (rule ens_facts | rule ens_facts[THEN ensures_weaken] | clarsimp)+
  done

text \<open>The loop \<^verbatim>\<open>while (accept(buf, ';'))\<close> of \<^verbatim>\<open>parse_declaration_list\<close>; the result is
  the chain that the loop links behind \<^verbatim>\<open>tail\<close>.\<close>

function parse_declaration_list_tail :: "lexbuf \<Rightarrow> (fz_css_property list \<times> lexbuf) result" where
  "parse_declaration_list_tail buf =
    res_bind (accept_token buf (Byte (CHR '';''))) (\<lambda>(semi, b1).
      if semi then
        (if buf_lookahead b1 \<noteq> Byte (CHR ''}'') \<and> buf_lookahead b1 \<noteq> Byte (CHR '';'') \<and>
            buf_lookahead b1 \<noteq> EOF then
           res_bind (parse_declaration b1) (\<lambda>(p, b2).
           res_bind (parse_declaration_list_tail b2) (\<lambda>(ps, b3). Inr (p # ps, b3)))
         else parse_declaration_list_tail b1)
      else Inr ([], b1))"
  by pat_completeness auto
termination
  by (relation "measure msr")
     (auto dest!: ensuresD[OF ens_accept_token] ensuresD[OF ens_parse_declaration])

declare parse_declaration_list_tail.simps [simp del]

lemma ens_parse_declaration_list_tail [ens_facts]:
  "ensures (parse_declaration_list_tail buf) (\<lambda>r. msr (snd r) \<le> msr buf)"
proof (induction buf rule: parse_declaration_list_tail.induct)
  case (1 buf)
  show ?case
    apply (subst parse_declaration_list_tail.simps)
    apply (intro ensures_step)
    apply (rule ens_facts | (rule "1.IH"; assumption) | rule ens_facts[THEN ensures_weaken]
         | (rule ensures_weaken, (rule "1.IH"; assumption)) | clarsimp)+
    done
qed

definition parse_declaration_list :: "lexbuf \<Rightarrow> (fz_css_property list \<times> lexbuf) result" where
  "parse_declaration_list buf =
    (if buf_lookahead buf = Byte (CHR ''}'') \<or> buf_lookahead buf = EOF then Inr ([], buf)
     else
       res_bind (parse_declaration buf) (\<lambda>(p, b1).
       res_bind (parse_declaration_list_tail b1) (\<lambda>(ps, b2). Inr (p # ps, b2))))"

lemma ens_parse_declaration_list [ens_facts]:
  "ensures (parse_declaration_list buf) (\<lambda>r. msr (snd r) \<le> msr buf)"
  unfolding parse_declaration_list_def
  apply (intro ensures_step)
  apply (rule ens_facts | rule ens_facts[THEN ensures_weaken] | clarsimp)+
  done

definition parse_attrib_value :: "lexbuf \<Rightarrow> (string \<times> lexbuf) result" where
  "parse_attrib_value buf =
    (if buf_lookahead buf = CSS_KEYWORD \<or> buf_lookahead buf = CSS_STRING then
       res_bind (next_token buf) (\<lambda>b1. Inr (fz_strdup (buf_string buf), b1))
     else fz_css_error buf ''expected attribute value'')"

lemma ens_parse_attrib_value [ens_facts]:
  "ensures (parse_attrib_value buf) (\<lambda>r. msr (snd r) < msr buf)"
  unfolding parse_attrib_value_def
  apply (intro ensures_step)
  apply (rule ens_facts | rule ens_facts[THEN ensures_weaken] | clarsimp)+
  done

definition parse_condition :: "lexbuf \<Rightarrow> (fz_css_condition \<times> lexbuf) result" where
  "parse_condition buf =
    res_bind (accept_token buf (Byte (CHR '':''))) (\<lambda>(colon, b1).
    if colon then
      (if buf_lookahead b1 \<noteq> CSS_KEYWORD then fz_css_error b1 (''expected keyword after '' @ [CHR 0x27, CHR '':'', CHR 0x27])
       else res_bind (next_token b1) (\<lambda>b2.
         Inr (fz_new_css_condition (CHR '':'') ''pseudo'' (Some (buf_string b1)), b2)))
    else
    res_bind (accept_token b1 (Byte (CHR ''.''))) (\<lambda>(dot, b2).
    if dot then
      (if buf_lookahead b2 \<noteq> CSS_KEYWORD then fz_css_error b2 (''expected keyword after '' @ [CHR 0x27, CHR ''.'', CHR 0x27])
       else res_bind (next_token b2) (\<lambda>b3.
         Inr (fz_new_css_condition (CHR ''.'') ''class'' (Some (buf_string b2)), b3)))
    else
    res_bind (accept_token b2 (Byte (CHR ''#''))) (\<lambda>(hash, b3).
    if hash then
      (if buf_lookahead b3 \<noteq> CSS_KEYWORD then fz_css_error b3 (''expected keyword after '' @ [CHR 0x27, CHR ''#'', CHR 0x27])
       else res_bind (next_token b3) (\<lambda>b4.
         Inr (fz_new_css_condition (CHR ''#'') ''id'' (Some (buf_string b3)), b4)))
    else
    res_bind (accept_token b3 (Byte (CHR ''[''))) (\<lambda>(bracket, b4).
    if bracket then
      (if buf_lookahead b4 \<noteq> CSS_KEYWORD then fz_css_error b4 (''expected keyword after '' @ [CHR 0x27, CHR ''['', CHR 0x27])
       else
         res_bind (next_token b4) (\<lambda>b5.
         res_bind (accept_token b5 (Byte (CHR ''=''))) (\<lambda>(eq, b6).
         res_bind
           (if eq then
              res_bind (parse_attrib_value b6) (\<lambda>(v, b7).
                Inr (Css_condition (CHR ''='') (fz_strdup (buf_string b4)) (Some v), b7))
            else
              res_bind (accept_token b6 (Byte (CHR ''|''))) (\<lambda>(bar, b7).
              if bar then
                res_bind (expect_token b7 (Byte (CHR ''=''))) (\<lambda>b8.
                res_bind (parse_attrib_value b8) (\<lambda>(v, b9).
                  Inr (Css_condition (CHR ''|'') (fz_strdup (buf_string b4)) (Some v), b9)))
              else
                res_bind (accept_token b7 (Byte (CHR ''~''))) (\<lambda>(tilde, b8).
                if tilde then
                  res_bind (expect_token b8 (Byte (CHR ''=''))) (\<lambda>b9.
                  res_bind (parse_attrib_value b9) (\<lambda>(v, b10).
                    Inr (Css_condition (CHR ''~'') (fz_strdup (buf_string b4)) (Some v), b10)))
                else
                  Inr (fz_new_css_condition (CHR ''['') (buf_string b4) None, b8))))
           (\<lambda>(c, b11).
         res_bind (expect_token b11 (Byte (CHR '']''))) (\<lambda>b12. Inr (c, b12))))))
    else fz_css_error b4 ''expected condition''))))"

lemma ens_parse_condition [ens_facts]:
  "ensures (parse_condition buf) (\<lambda>r. msr (snd r) < msr buf)"
  unfolding parse_condition_def res_bind_if res_bind_case_prod res_bind_assoc res_bind.simps
  apply (intro ensures_step)
  apply (rule ens_facts | rule ens_facts[THEN ensures_weaken] | clarsimp)+
  done


function parse_condition_list :: "lexbuf \<Rightarrow> (fz_css_condition list \<times> lexbuf) result" where
  "parse_condition_list buf =
    res_bind (parse_condition buf) (\<lambda>(c, b1).
      if iscond (buf_lookahead b1) then
        res_bind (parse_condition_list b1) (\<lambda>(cs, b2). Inr (c # cs, b2))
      else Inr ([c], b1))"
  by pat_completeness auto
termination
  by (relation "measure msr") (auto dest!: ensuresD[OF ens_parse_condition])

declare parse_condition_list.simps [simp del]

lemma ens_parse_condition_list [ens_facts]:
  "ensures (parse_condition_list buf) (\<lambda>r. msr (snd r) < msr buf)"
proof (induction buf rule: parse_condition_list.induct)
  case (1 buf)
  show ?case
    apply (subst parse_condition_list.simps)
    apply (intro ensures_step)
    apply (rule ens_facts | (rule "1.IH"; assumption) | rule ens_facts[THEN ensures_weaken]
         | (rule ensures_weaken, (rule "1.IH"; assumption)) | clarsimp)+
    done
qed

definition parse_simple_selector :: "lexbuf \<Rightarrow> (fz_css_selector \<times> lexbuf) result" where
  "parse_simple_selector buf =
    res_bind (accept_token buf (Byte (CHR ''*''))) (\<lambda>(star, b1).
    if star then
      (if iscond (buf_lookahead b1) then
         res_bind (parse_condition_list b1) (\<lambda>(cs, b2).
           Inr (Css_selector None NUL cs None None, b2))
       else Inr (fz_new_css_selector None, b1))
    else if buf_lookahead b1 = CSS_KEYWORD then
      res_bind (next_token b1) (\<lambda>b2.
        if iscond (buf_lookahead b2) then
          res_bind (parse_condition_list b2) (\<lambda>(cs, b3).
            Inr (Css_selector (Some (fz_strdup (buf_string b1))) NUL cs None None, b3))
        else Inr (fz_new_css_selector (Some (buf_string b1)), b2))
    else if iscond (buf_lookahead b1) then
      res_bind (parse_condition_list b1) (\<lambda>(cs, b2).
        Inr (Css_selector None NUL cs None None, b2))
    else fz_css_error b1 ''expected selector'')"

lemma ens_parse_simple_selector [ens_facts]:
  "ensures (parse_simple_selector buf) (\<lambda>r. msr (snd r) < msr buf)"
  unfolding parse_simple_selector_def 
  apply (intro ensures_step)
  apply (rule ens_facts | rule ens_facts[THEN ensures_weaken] | clarsimp)+
  done

text \<open>A combinator node: \<^verbatim>\<open>fz_new_css_selector(ctx, NULL)\<close> with \<^verbatim>\<open>combine\<close>, \<^verbatim>\<open>left\<close> and
  \<^verbatim>\<open>right\<close> assigned.\<close>

definition combinator :: "char \<Rightarrow> fz_css_selector \<Rightarrow> fz_css_selector \<Rightarrow> fz_css_selector" where
  "combinator c a b = Css_selector None c [] (Some a) (Some b)"

function parse_adjacent_selector :: "lexbuf \<Rightarrow> (fz_css_selector \<times> lexbuf) result" where
  "parse_adjacent_selector buf =
    res_bind (parse_simple_selector buf) (\<lambda>(a, b1).
    res_bind (accept_token b1 (Byte (CHR ''+''))) (\<lambda>(plus, b2).
      if plus then
        res_bind (parse_adjacent_selector b2) (\<lambda>(b, b3). Inr (combinator (CHR ''+'') a b, b3))
      else Inr (a, b2)))"
  by pat_completeness auto
termination
  by (relation "measure msr") (auto dest!: ensuresD[OF ens_parse_simple_selector] ensuresD[OF ens_accept_token])

declare parse_adjacent_selector.simps [simp del]

lemma ens_parse_adjacent_selector [ens_facts]:
  "ensures (parse_adjacent_selector buf) (\<lambda>r. msr (snd r) < msr buf)"
proof (induction buf rule: parse_adjacent_selector.induct)
  case (1 buf)
  show ?case
    apply (subst parse_adjacent_selector.simps)
    apply (intro ensures_step)
    apply (rule ens_facts | (rule "1.IH"; assumption) | rule ens_facts[THEN ensures_weaken]
         | (rule ensures_weaken, (rule "1.IH"; assumption)) | clarsimp)+
    done
qed

function parse_child_selector :: "lexbuf \<Rightarrow> (fz_css_selector \<times> lexbuf) result" where
  "parse_child_selector buf =
    res_bind (parse_adjacent_selector buf) (\<lambda>(a, b1).
    res_bind (accept_token b1 (Byte (CHR ''>''))) (\<lambda>(gt, b2).
      if gt then
        res_bind (parse_child_selector b2) (\<lambda>(b, b3). Inr (combinator (CHR ''>'') a b, b3))
      else Inr (a, b2)))"
  by pat_completeness auto
termination
  by (relation "measure msr") (auto dest!: ensuresD[OF ens_parse_adjacent_selector] ensuresD[OF ens_accept_token])

declare parse_child_selector.simps [simp del]

lemma ens_parse_child_selector [ens_facts]:
  "ensures (parse_child_selector buf) (\<lambda>r. msr (snd r) < msr buf)"
proof (induction buf rule: parse_child_selector.induct)
  case (1 buf)
  show ?case
    apply (subst parse_child_selector.simps)
    apply (intro ensures_step)
    apply (rule ens_facts | (rule "1.IH"; assumption) | rule ens_facts[THEN ensures_weaken]
         | (rule ensures_weaken, (rule "1.IH"; assumption)) | clarsimp)+
    done
qed

function parse_descendant_selector :: "lexbuf \<Rightarrow> (fz_css_selector \<times> lexbuf) result" where
  "parse_descendant_selector buf =
    res_bind (parse_child_selector buf) (\<lambda>(a, b1).
      if buf_lookahead b1 \<noteq> Byte (CHR '','') \<and> buf_lookahead b1 \<noteq> Byte (CHR ''{'') \<and>
         buf_lookahead b1 \<noteq> EOF then
        res_bind (parse_descendant_selector b1) (\<lambda>(b, b2). Inr (combinator (CHR '' '') a b, b2))
      else Inr (a, b1))"
  by pat_completeness auto
termination
  by (relation "measure msr") (auto dest!: ensuresD[OF ens_parse_child_selector])

declare parse_descendant_selector.simps [simp del]

lemma ens_parse_descendant_selector [ens_facts]:
  "ensures (parse_descendant_selector buf) (\<lambda>r. msr (snd r) < msr buf)"
proof (induction buf rule: parse_descendant_selector.induct)
  case (1 buf)
  show ?case
    apply (subst parse_descendant_selector.simps)
    apply (intro ensures_step)
    apply (rule ens_facts | (rule "1.IH"; assumption) | rule ens_facts[THEN ensures_weaken]
         | (rule ensures_weaken, (rule "1.IH"; assumption)) | clarsimp)+
    done
qed

text \<open>The loop \<^verbatim>\<open>while (accept(buf, ','))\<close> of \<^verbatim>\<open>parse_selector_list\<close>; the result is the
  chain that the loop links behind \<^verbatim>\<open>tail\<close>.\<close>

function parse_selector_list_tail :: "lexbuf \<Rightarrow> (fz_css_selector list \<times> lexbuf) result" where
  "parse_selector_list_tail buf =
    res_bind (accept_token buf (Byte (CHR '',''))) (\<lambda>(comma, b1).
      if comma then
        res_bind (parse_descendant_selector b1) (\<lambda>(s, b2).
        res_bind (parse_selector_list_tail b2) (\<lambda>(ss, b3). Inr (s # ss, b3)))
      else Inr ([], b1))"
  by pat_completeness auto
termination
  by (relation "measure msr") (auto dest!: ensuresD[OF ens_parse_descendant_selector] ensuresD[OF ens_accept_token])

declare parse_selector_list_tail.simps [simp del]

lemma ens_parse_selector_list_tail [ens_facts]:
  "ensures (parse_selector_list_tail buf) (\<lambda>r. msr (snd r) \<le> msr buf)"
proof (induction buf rule: parse_selector_list_tail.induct)
  case (1 buf)
  show ?case
    apply (subst parse_selector_list_tail.simps)
    apply (intro ensures_step)
    apply (rule ens_facts | (rule "1.IH"; assumption) | rule ens_facts[THEN ensures_weaken]
         | (rule ensures_weaken, (rule "1.IH"; assumption)) | clarsimp)+
    done
qed

definition parse_selector_list :: "lexbuf \<Rightarrow> (fz_css_selector list \<times> lexbuf) result" where
  "parse_selector_list buf =
    res_bind (parse_descendant_selector buf) (\<lambda>(s, b1).
    res_bind (parse_selector_list_tail b1) (\<lambda>(ss, b2). Inr (s # ss, b2)))"

lemma ens_parse_selector_list [ens_facts]:
  "ensures (parse_selector_list buf) (\<lambda>r. msr (snd r) < msr buf)"
  unfolding parse_selector_list_def 
  apply (intro ensures_step)
  apply (rule ens_facts | rule ens_facts[THEN ensures_weaken] | clarsimp)+
  done

definition parse_rule :: "lexbuf \<Rightarrow> (fz_css_rule \<times> lexbuf) result" where
  "parse_rule buf =
    res_bind (parse_selector_list buf) (\<lambda>(s, b1).
    res_bind (expect_token b1 (Byte (CHR ''{''))) (\<lambda>b2.
    res_bind (parse_declaration_list b2) (\<lambda>(p, b3).
    res_bind (expect_token b3 (Byte (CHR ''}''))) (\<lambda>b4.
      Inr (fz_new_css_rule s p, b4)))))"

lemma ens_parse_rule [ens_facts]:
  "ensures (parse_rule buf) (\<lambda>r. msr (snd r) < msr buf)"
  unfolding parse_rule_def 
  apply (intro ensures_step)
  apply (rule ens_facts | rule ens_facts[THEN ensures_weaken] | clarsimp)+
  done

text \<open>The inner loop of \<^verbatim>\<open>parse_at_rule\<close>, which skips a block:
  \<^verbatim>\<open>while (buf->lookahead != EOF && depth > 0)\<close>.\<close>

function parse_at_rule_block :: "lexbuf \<Rightarrow> int \<Rightarrow> lexbuf result" where
  "parse_at_rule_block buf depth =
    (if buf_lookahead buf \<noteq> EOF \<and> depth > 0 then
       res_bind (accept_token buf (Byte (CHR ''{''))) (\<lambda>(opn, b1).
         if opn then parse_at_rule_block b1 (depth + 1)
         else
           res_bind (accept_token b1 (Byte (CHR ''}''))) (\<lambda>(cls, b2).
             if cls then parse_at_rule_block b2 (depth - 1)
             else res_bind (next_token b2) (\<lambda>b3. parse_at_rule_block b3 depth)))
     else Inr buf)"
  by pat_completeness auto
termination
  by (relation "measure (\<lambda>(buf, depth). msr buf)")
     (auto dest!: ensuresD[OF ens_accept_token] ensuresD[OF ens_next_token])

declare parse_at_rule_block.simps [simp del]

lemma ens_parse_at_rule_block [ens_facts]:
  "ensures (parse_at_rule_block buf depth) (\<lambda>b. msr b \<le> msr buf)"
proof (induction buf depth rule: parse_at_rule_block.induct)
  case (1 buf depth)
  show ?case
    apply (subst parse_at_rule_block.simps)
    apply (intro ensures_step)
    apply (rule ens_facts | (rule "1.IH"; assumption) | rule ens_facts[THEN ensures_weaken]
         | (rule ensures_weaken, (rule "1.IH"; assumption)) | clarsimp)+
    done
qed

text \<open>The outer loop of \<^verbatim>\<open>parse_at_rule\<close>: \<^verbatim>\<open>while (buf->lookahead != EOF)\<close>.\<close>

function parse_at_rule_skip :: "lexbuf \<Rightarrow> lexbuf result" where
  "parse_at_rule_skip buf =
    (if buf_lookahead buf \<noteq> EOF then
       res_bind (accept_token buf (Byte (CHR '';''))) (\<lambda>(semi, b1).
         if semi then Inr b1
         else
           res_bind (accept_token b1 (Byte (CHR ''{''))) (\<lambda>(opn, b2).
             if opn then parse_at_rule_block b2 1
             else res_bind (next_token b2) (\<lambda>b3. parse_at_rule_skip b3)))
     else Inr buf)"
  by pat_completeness auto
termination
  by (relation "measure msr")
     (auto dest!: ensuresD[OF ens_accept_token] ensuresD[OF ens_next_token])

declare parse_at_rule_skip.simps [simp del]

lemma ens_parse_at_rule_skip [ens_facts]:
  "ensures (parse_at_rule_skip buf) (\<lambda>r. msr r \<le> msr buf)"
proof (induction buf rule: parse_at_rule_skip.induct)
  case (1 buf)
  show ?case
    apply (subst parse_at_rule_skip.simps)
    apply (intro ensures_step)
    apply (rule ens_facts | (rule "1.IH"; assumption) | rule ens_facts[THEN ensures_weaken]
         | (rule ensures_weaken, (rule "1.IH"; assumption)) | clarsimp)+
    done
qed

definition parse_at_rule :: "lexbuf \<Rightarrow> lexbuf result" where
  "parse_at_rule buf = res_bind (expect_token buf CSS_KEYWORD) parse_at_rule_skip"

lemma ens_parse_at_rule [ens_facts]:
  "ensures (parse_at_rule buf) (\<lambda>r. msr r \<le> msr buf)"
  unfolding parse_at_rule_def 
  apply (intro ensures_step)
  apply (rule ens_facts | rule ens_facts[THEN ensures_weaken] | clarsimp)+
  done

text \<open>
  The loop of \<^verbatim>\<open>parse_stylesheet\<close>. The rule chain is a list; \<^verbatim>\<open>*nextp = rule\<close> links the
  new rule behind the last one of the chain built so far, which \<open>rules\<close> holds.
\<close>

function parse_stylesheet_loop :: "lexbuf \<Rightarrow> fz_css_rule list \<Rightarrow> fz_css_rule list result" where
  "parse_stylesheet_loop buf rules =
    (if buf_lookahead buf \<noteq> EOF then
       res_bind (accept_token buf (Byte (CHR ''@''))) (\<lambda>(at, b1).
         if at then res_bind (parse_at_rule b1) (\<lambda>b2. parse_stylesheet_loop b2 rules)
         else res_bind (parse_rule b1) (\<lambda>(rule, b2). parse_stylesheet_loop b2 (rules @ [rule])))
     else Inr rules)"
  by pat_completeness auto
termination
  by (relation "measure (\<lambda>(buf, rules). msr buf)")
     (auto dest!: ensuresD[OF ens_accept_token] ensuresD[OF ens_parse_at_rule]
                  ensuresD[OF ens_parse_rule])

declare parse_stylesheet_loop.simps [simp del]

text \<open>
  \<^verbatim>\<open>parse_stylesheet\<close>: with a chain given, the new rules are linked behind its last rule and
  the chain's head is returned; with none, the head of the new rules is returned.
\<close>

definition parse_stylesheet :: "lexbuf \<Rightarrow> fz_css_rule list \<Rightarrow> fz_css_rule list result" where
  "parse_stylesheet buf chain = parse_stylesheet_loop buf chain"


definition fz_parse_css :: "fz_css_rule list \<Rightarrow> string \<Rightarrow> fz_css_rule list result" where
  "fz_parse_css chain source =
    res_bind (css_lex_init source) (\<lambda>buf.
    res_bind (next_token buf) (\<lambda>b1. parse_stylesheet b1 chain))"



text \<open>
  The first token of a source and the text it leaves in the scratch buffer (read as the
  parser reads it, with \<^verbatim>\<open>fz_strdup\<close>): the view of the lexer that the statements below use.
\<close>

definition lex_first :: "string \<Rightarrow> (token \<times> string) result" where
  "lex_first source =
    res_bind (css_lex_init source) (\<lambda>buf.
    res_bind (css_lex buf) (\<lambda>(t, b). Inr (t, fz_strdup (buf_string b))))"


section \<open>Evaluating the lexer and the parser\<close>

text \<open>
  The recursive functions are unfolded only where the test of their loop is decided, so that
  a source with an unknown tail can be run through the lexer and the parser by rewriting.
\<close>

lemma css_lex_white_unfold:
  "iswhite (buf_c buf) \<Longrightarrow> css_lex_white buf = res_bind (css_lex_next buf) css_lex_white"
  "\<not> iswhite (buf_c buf) \<Longrightarrow> css_lex_white buf = Inr buf"
  by (subst css_lex_white.simps, simp)+

lemma css_lex_nmchars_unfold:
  "isnmchar (buf_c buf) \<Longrightarrow> css_lex_nmchars buf =
     res_bind (css_push_char buf (buf_c buf)) (\<lambda>b1. res_bind (css_lex_next b1) css_lex_nmchars)"
  "\<not> isnmchar (buf_c buf) \<Longrightarrow> css_lex_nmchars buf = Inr buf"
  by (subst css_lex_nmchars.simps, simp)+


lemma css_lex_restart_dispatch:
  "\<not> iswhite (buf_c buf) \<Longrightarrow> buf_c buf \<noteq> NUL \<Longrightarrow> buf_c buf \<noteq> CHR ''/'' \<Longrightarrow>
   buf_c buf \<noteq> CHR ''<'' \<Longrightarrow> buf_c buf \<noteq> CHR ''-'' \<Longrightarrow> css_lex_restart buf = css_lex_dispatch buf"
  by (subst css_lex_restart.simps) (simp add: css_lex_white_unfold css_lex_accept_def)



section \<open>Rules are linked behind the chain\<close>

text \<open>Parsing onto a chain gives the chain followed by what parsing onto no chain gives.\<close>

lemma parse_stylesheet_loop_append:
  "parse_stylesheet_loop buf chain = map_sum id ((@) chain) (parse_stylesheet_loop buf [])"
proof (induction "msr buf" arbitrary: buf chain rule: less_induct)
  case less
  show ?case
  proof (cases "buf_lookahead buf = EOF")
    case True
    then show ?thesis by (simp add: parse_stylesheet_loop.simps)
  next
    case False
    show ?thesis
    proof (cases "accept_token buf (Byte (CHR ''@''))")
      case (Inl e)
      with False show ?thesis by (simp add: parse_stylesheet_loop.simps[of buf])
    next
      case (Inr x)
      obtain at b1 where x: "x = (at, b1)" by (cases x)
      from ensuresD[OF ens_accept_token Inr] x
      have m1: "msr b1 \<le> msr buf" and m1': "at \<Longrightarrow> msr b1 < msr buf"
        by simp_all
      show ?thesis
      proof (cases at)
        case True
        show ?thesis
        proof (cases "parse_at_rule b1")
          case (Inl e)
          with False Inr x True show ?thesis by (simp add: parse_stylesheet_loop.simps[of buf])
        next
          case r: (Inr b2)
          from ensuresD[OF ens_parse_at_rule r] m1'[OF True] have "msr b2 < msr buf" by simp
          then have "parse_stylesheet_loop b2 chain =
              map_sum id ((@) chain) (parse_stylesheet_loop b2 [])"
            by (rule less)
          with False Inr x True r show ?thesis
            by (simp add: parse_stylesheet_loop.simps[of buf])
        qed
      next
        case F: False
        show ?thesis
        proof (cases "parse_rule b1")
          case (Inl e)
          with False Inr x F show ?thesis by (simp add: parse_stylesheet_loop.simps[of buf])
        next
          case r: (Inr y)
          obtain rule b2 where y: "y = (rule, b2)" by (cases y)
          from ensuresD[OF ens_parse_rule r] y m1 have lt: "msr b2 < msr buf" by simp
          have ih: "parse_stylesheet_loop b2 c = map_sum id ((@) c) (parse_stylesheet_loop b2 [])"
            for c using lt by (rule less)
          have "parse_stylesheet_loop buf chain = parse_stylesheet_loop b2 (chain @ [rule])"
            using False Inr x F r y by (simp add: parse_stylesheet_loop.simps[of buf])
          also have "\<dots> = map_sum id ((@) (chain @ [rule])) (parse_stylesheet_loop b2 [])"
            by (rule ih)
          also have "\<dots> = map_sum id ((@) chain)
                (map_sum id ((@) [rule]) (parse_stylesheet_loop b2 []))"
            by (cases "parse_stylesheet_loop b2 []") simp_all
          also have "map_sum id ((@) [rule]) (parse_stylesheet_loop b2 []) =
                parse_stylesheet_loop b2 [rule]"
            by (rule ih[symmetric])
          also have "parse_stylesheet_loop b2 [rule] = parse_stylesheet_loop buf []"
            using False Inr x F r y by (simp add: parse_stylesheet_loop.simps[of buf])
          finally show ?thesis .
        qed
      qed
    qed
  qed
qed

lemma fz_parse_css_append:
  "fz_parse_css chain source = map_sum id ((@) chain) (fz_parse_css [] source)"
proof (cases "css_lex_init source")
  case (Inl e)
  then show ?thesis by (simp add: fz_parse_css_def)
next
  case (Inr buf)
  show ?thesis
  proof (cases "next_token buf")
    case (Inl e)
    with Inr show ?thesis by (simp add: fz_parse_css_def)
  next
    case n: (Inr b1)
    with Inr show ?thesis
      using parse_stylesheet_loop_append[of b1 chain]
      by (simp add: fz_parse_css_def parse_stylesheet_def)
  qed
qed

section \<open>Runs of the lexer's loops\<close>

lemma length_poke: "length (poke xs i ch) = max (length xs) (Suc i)"
  by (simp add: poke_def max_def)

lemma take_poke: "i \<le> length xs \<Longrightarrow> take (Suc i) (poke xs i ch) = take i xs @ [ch]"
proof (cases "i < length xs")
  case True
  then show ?thesis
    by (simp add: poke_def take_Suc_conv_app_nth)
next
  case False
  assume "i \<le> length xs"
  with False have "i = length xs" by simp
  then show ?thesis by (simp add: poke_def)
qed

lemma isnmchar_not_newline [simp]: "isnmchar c \<Longrightarrow> c \<noteq> CHR 0x0A"
  by (auto simp: isnmchar_def)

lemma css_lex_nmchars_run:
  assumes "\<forall>c\<in>set w. isnmchar c" and "\<not> isnmchar x"
    and "buf_c buf # buf_s buf = w @ x # rest"
    and "buf_string_len buf + length w \<le> 1023"
    and "buf_string_len buf \<le> length (buf_string buf)"
  shows "\<exists>b. css_lex_nmchars buf = Inr b \<and> buf_c b = x \<and> buf_s b = rest \<and>
           buf_string_len b = buf_string_len buf + length w \<and>
           take (buf_string_len b) (buf_string b) =
             take (buf_string_len buf) (buf_string buf) @ w \<and>
           buf_string_len b \<le> length (buf_string b) \<and>
           buf_line b = buf_line buf + (if w \<noteq> [] \<and> x = CHR 0x0A then 1 else 0)"
  using assms
proof (induction w arbitrary: buf)
  case Nil
  then show ?case by (simp add: css_lex_nmchars_unfold)
next
  case (Cons a w)
  from Cons.prems have c: "buf_c buf = a" and s: "buf_s buf = w @ x # rest"
    and a: "isnmchar a" and len: "buf_string_len buf < 1023"
    by simp_all
  let ?b1 = "buf\<lparr>buf_string := poke (buf_string buf) (buf_string_len buf) a,
                   buf_string_len := buf_string_len buf + 1\<rparr>"
  let ?y = "hd (w @ [x])"
  let ?b2 = "?b1\<lparr>buf_c := ?y, buf_s := tl (w @ [x]) @ rest,
                buf_line := (if ?y = CHR 0x0A then buf_line buf + 1 else buf_line buf)\<rparr>"
  have push: "css_push_char buf a = Inr ?b1"
    using len by (simp add: css_push_char_def)
  have nxt: "css_lex_next ?b1 = Inr ?b2"
    using s by (cases w) (simp_all add: css_lex_next_def)
  have step: "css_lex_nmchars buf = css_lex_nmchars ?b2"
    using c a push nxt by (simp add: css_lex_nmchars_unfold(1))
  have "\<exists>b. css_lex_nmchars ?b2 = Inr b \<and> buf_c b = x \<and> buf_s b = rest \<and>
           buf_string_len b = buf_string_len ?b2 + length w \<and>
           take (buf_string_len b) (buf_string b) =
             take (buf_string_len ?b2) (buf_string ?b2) @ w \<and>
           buf_string_len b \<le> length (buf_string b) \<and>
           buf_line b = buf_line ?b2 + (if w \<noteq> [] \<and> x = CHR 0x0A then 1 else 0)"
  proof (rule Cons.IH)
    show "\<forall>c\<in>set w. isnmchar c" using Cons.prems by simp
    show "\<not> isnmchar x" by fact
    show "buf_c ?b2 # buf_s ?b2 = w @ x # rest" by (cases w) simp_all
    show "buf_string_len ?b2 + length w \<le> 1023" using Cons.prems by simp
    show "buf_string_len ?b2 \<le> length (buf_string ?b2)" by (simp add: length_poke)
  qed
  then obtain b where b: "css_lex_nmchars ?b2 = Inr b" "buf_c b = x" "buf_s b = rest"
      "buf_string_len b = buf_string_len ?b2 + length w"
      "take (buf_string_len b) (buf_string b) = take (buf_string_len ?b2) (buf_string ?b2) @ w"
      "buf_string_len b \<le> length (buf_string b)"
      "buf_line b = buf_line ?b2 + (if w \<noteq> [] \<and> x = CHR 0x0A then 1 else 0)"
    by blast
  have tk: "take (buf_string_len ?b2) (buf_string ?b2) =
      take (buf_string_len buf) (buf_string buf) @ [a]"
    using Cons.prems(5) by (simp add: take_poke)
  have ln: "buf_line b = buf_line buf + (if x = CHR 0x0A then 1 else 0)"
  proof (cases w)
    case Nil
    with b(7) show ?thesis by simp
  next
    case (Cons a' w')
    with Cons.prems(1) have "a' \<noteq> CHR 0x0A" by auto
    with b(7) Cons show ?thesis by simp
  qed
  show ?case
    using step b(1-4,6) b(5)[unfolded tk] ln by simp
qed

lemma css_lex_nmchars_overflow:
  assumes "\<forall>c\<in>set w. isnmchar c" and "w \<noteq> []"
    and "buf_c buf # buf_s buf = w @ rest"
    and "buf_string_len buf + length w > 1023"
  shows "css_lex_nmchars buf = Inl (Css_syntax_error ''token too long'' (buf_line buf))"
  using assms
proof (induction w arbitrary: buf)
  case Nil
  then show ?case by simp
next
  case (Cons a w)
  from Cons.prems have c: "buf_c buf = a" and s: "buf_s buf = w @ rest" and a: "isnmchar a"
    by simp_all
  show ?case
  proof (cases "buf_string_len buf < 1023")
    case False
    then show ?thesis
      using c a by (simp add: css_lex_nmchars_unfold(1) css_push_char_def fz_css_error_def)
  next
    case True
    with Cons.prems(4) obtain a' w' where w: "w = a' # w'" by (cases w) auto
    with Cons.prems(1) have a': "a' \<noteq> CHR 0x0A" by auto
    let ?b2 = "buf\<lparr>buf_string := poke (buf_string buf) (buf_string_len buf) a,
                   buf_string_len := buf_string_len buf + 1, buf_c := a', buf_s := w' @ rest\<rparr>"
    have step: "css_lex_nmchars buf = css_lex_nmchars ?b2"
      using c a s True w a'
      by (simp add: css_lex_nmchars_unfold(1) css_push_char_def css_lex_next_def)
    have "css_lex_nmchars ?b2 = Inl (Css_syntax_error ''token too long'' (buf_line ?b2))"
    proof (rule Cons.IH)
      show "\<forall>c\<in>set w. isnmchar c" using Cons.prems by simp
      show "w \<noteq> []" using w by simp
      show "buf_c ?b2 # buf_s ?b2 = w @ rest" using w by simp
      show "1023 < buf_string_len ?b2 + length w" using Cons.prems by simp
    qed
    with step show ?thesis by simp
  qed
qed

text \<open>A token that starts with a name-start byte other than \<^verbatim>\<open>u\<close> is a keyword.\<close>

lemma css_lex_nmstart:
  assumes "isnmstart (buf_c buf)" and "buf_c buf \<noteq> CHR ''u''"
  shows "css_lex buf =
    res_bind (css_push_char (buf\<lparr>buf_string_len := 0\<rparr>) (buf_c buf)) (\<lambda>b1.
    res_bind (css_lex_next b1) css_lex_keyword)"
proof -
  from assms(1) have "\<not> iswhite (buf_c buf)" "buf_c buf \<noteq> NUL" "buf_c buf \<noteq> CHR ''/''"
    "buf_c buf \<noteq> CHR ''<''" "buf_c buf \<noteq> CHR ''-''" "buf_c buf \<noteq> CHR ''+''"
    "buf_c buf \<noteq> CHR ''.''" "buf_c buf \<noteq> CHR ''#''" "buf_c buf \<noteq> CHR 0x22"
    "buf_c buf \<noteq> CHR 0x27" "\<not> isdigit (buf_c buf)"
    by (auto simp: isnmstart_def iswhite_def isdigit_def less_eq_char_def)
  with assms show ?thesis
    by (simp add: css_lex_def css_lex_restart_dispatch css_lex_dispatch_def css_lex_accept_def)
qed

lemma fz_strdup_take:
  assumes "take (Suc n) xs = w @ [NUL]" and "NUL \<notin> set w"
  shows "fz_strdup xs = w"
proof -
  have "xs = take (Suc n) xs @ drop (Suc n) xs" by simp
  with assms(1) have "xs = w @ NUL # drop (Suc n) xs" by simp
  then have "fz_strdup xs = takeWhile (\<lambda>ch. ch \<noteq> NUL) (w @ NUL # drop (Suc n) xs)"
    by (simp add: fz_strdup_def)
  also have "\<dots> = w" using assms(2) by (auto simp: takeWhile_tail)
  finally show ?thesis .
qed

lemma isnmchar_not_NUL [simp]: "isnmchar c \<Longrightarrow> c \<noteq> NUL"
  by (auto simp: isnmchar_def)

lemma isnmstart_isnmchar: "isnmstart c \<Longrightarrow> isnmchar c"
  by (auto simp: isnmstart_def isnmchar_def)

lemma lex_first_keyword:
  assumes "w \<noteq> []" and "isnmstart (hd w)" and "hd w \<noteq> CHR ''u''"
    and "\<forall>c\<in>set (tl w). isnmchar c" and "\<not> isnmchar (hd (rest @ [NUL]))"
  shows "lex_first (w @ rest) =
    (if length w \<le> 1022 then Inr (CSS_KEYWORD, w)
     else Inl (Css_syntax_error ''token too long''
            (if length w = 1023 \<and> hd (rest @ [NUL]) = CHR 0x0A then 2 else 1)))"
proof -
  from assms(1) obtain a w' where w: "w = a # w'" by (cases w) auto
  with assms have a: "isnmstart a" "a \<noteq> CHR ''u''" and w': "\<forall>c\<in>set w'. isnmchar c"
    by simp_all
  from a(1) have a_nm: "isnmchar a" by (rule isnmstart_isnmchar)
  then have a_nl: "a \<noteq> CHR 0x0A" by simp
  define x where "x = hd (rest @ [NUL])"
  define rest' where "rest' = tl (rest @ [NUL])"
  have rest: "rest @ [NUL] = x # rest'"
    by (cases rest) (simp_all add: x_def rest'_def)
  have x: "\<not> isnmchar x" using assms(5) by (simp add: x_def)
  define y where "y = hd (w' @ [x])"
  define b2 where "b2 = \<lparr>buf_s = tl (w' @ [x]) @ rest',
      buf_line = (if y = CHR 0x0A then 2 else 1), buf_lookahead = EOF, buf_c = y,
      buf_color = 0, buf_string_len = 1, buf_string = [a]\<rparr>"
  have mem: "w' @ rest @ [NUL] = y # tl (w' @ [x]) @ rest'"
    by (cases w') (simp_all add: y_def rest)
  have start: "lex_first (w @ rest) =
      res_bind (css_lex_keyword b2) (\<lambda>(t, b). Inr (t, fz_strdup (buf_string b)))"
    using a a_nl mem
    by (simp add: lex_first_def w css_lex_init_def css_lex_next_def css_lex_nmstart
          css_push_char_def poke_def b2_def)
  have b2: "buf_c b2 # buf_s b2 = w' @ x # rest'" "buf_string_len b2 = 1"
      "buf_string b2 = [a]"
    by (cases w'; simp add: b2_def y_def)+
  have line2: "w' \<noteq> [] \<Longrightarrow> buf_line b2 = 1"
    using w' by (cases w') (auto simp: b2_def y_def)
  show ?thesis
  proof (cases "length w \<le> 1023")
    case True
    with w have "buf_string_len b2 + length w' \<le> 1023" by (simp add: b2)
    from css_lex_nmchars_run[OF w' x b2(1) this] b2
    obtain b where b: "css_lex_nmchars b2 = Inr b"
        "buf_string_len b = length w" "take (buf_string_len b) (buf_string b) = w"
        "buf_string_len b \<le> length (buf_string b)"
        "buf_line b = buf_line b2 + (if w' \<noteq> [] \<and> x = CHR 0x0A then 1 else 0)"
      by (auto simp: w)
    show ?thesis
    proof (cases "length w \<le> 1022")
      case le: True
      let ?b' = "b\<lparr>buf_string := poke (buf_string b) (buf_string_len b) NUL,
                     buf_string_len := buf_string_len b + 1\<rparr>"
      have kw: "css_lex_keyword b2 = Inr (CSS_KEYWORD, ?b')"
        using b(1,2) le by (simp add: css_lex_keyword_def css_push_char_def)
      have "take (Suc (length w)) (buf_string ?b') = w @ [NUL]"
        using b(2,3,4) take_poke[of "buf_string_len b" "buf_string b" NUL] by simp
      moreover have "NUL \<notin> set w" using w w' a_nm by (auto dest: isnmchar_not_NUL)
      ultimately have "fz_strdup (buf_string ?b') = w" by (rule fz_strdup_take)
      with start kw le show ?thesis by simp
    next
      case False
      with True have eq: "length w = 1023" by simp
      with w have "w' \<noteq> []" by auto
      with b(5) line2 have "buf_line b = (if x = CHR 0x0A then 2 else 1)" by simp
      with start b(1,2) eq show ?thesis
        by (simp add: css_lex_keyword_def css_push_char_def fz_css_error_def x_def)
    qed
  next
    case False
    with w have ne: "w' \<noteq> []" and gt: "1023 < buf_string_len b2 + length w'"
      by (auto simp: b2)
    from b2(1) have "buf_c b2 # buf_s b2 = w' @ (x # rest')" by simp
    from css_lex_nmchars_overflow[OF w' ne this gt] line2[OF ne]
    have "css_lex_nmchars b2 = Inl (Css_syntax_error ''token too long'' 1)" by simp
    with start False show ?thesis by (simp add: css_lex_keyword_def)
  qed
qed

section \<open>Colours\<close>

text \<open>Appending one hex digit to a number: \<^verbatim>\<open>(m << 4) | d\<close>.\<close>

definition nib :: "int \<Rightarrow> int \<Rightarrow> int" where
  "nib m d = push_bit 4 m OR d"

lemma nib_peel:
  assumes "0 \<le> d" "d < 16"
  shows "nib m d div 16 = m" and "nib m d mod 16 = d"
proof -
  have "nib m d div 16 = drop_bit 4 (nib m d)" by (simp add: drop_bit_eq_div)
  also have "\<dots> = m OR drop_bit 4 d" by (simp add: nib_def drop_bit_push_bit)
  also have "drop_bit 4 d = 0" using assms by (simp add: drop_bit_eq_div)
  finally show "nib m d div 16 = m" by simp
  have "nib m d mod 16 = take_bit 4 (nib m d)" by (simp add: take_bit_eq_mod)
  also have "\<dots> = take_bit 4 (push_bit 4 m) OR take_bit 4 d" by (simp add: nib_def)
  also have "take_bit 4 (push_bit 4 m) = 0" by (simp add: take_bit_push_bit)
  also have "take_bit 4 d = d" using assms by (simp add: take_bit_int_eq_self)
  finally show "nib m d mod 16 = d" by simp
qed

lemma ishex_range: "ishex h = Some v \<Longrightarrow> 0 \<le> v \<and> v < 16"
  by (auto simp: ishex_def less_eq_char_def of_nat_of_char[where ?'a = int, symmetric]
           split: if_splits)


lemma nib_eq: "0 \<le> d \<Longrightarrow> d < 16 \<Longrightarrow> nib m d = 16 * m + d"
  using nib_peel[of d m] div_mult_mod_eq[of "nib m d" 16] by simp

text \<open>The integers of the claim: \<^verbatim>\<open>(a<<20)|(b<<12)|(c<<4)\<close> and
  \<^verbatim>\<open>(a<<20)|(b<<16)|(c<<12)|(d<<8)|(e<<4)|f\<close>.\<close>

definition rgb_value :: "int \<Rightarrow> int \<Rightarrow> int \<Rightarrow> int" where
  "rgb_value a b c = push_bit 20 a OR push_bit 12 b OR push_bit 4 c"

definition rrggbb_value :: "int \<Rightarrow> int \<Rightarrow> int \<Rightarrow> int \<Rightarrow> int \<Rightarrow> int \<Rightarrow> int" where
  "rrggbb_value a b c d e f =
     push_bit 20 a OR push_bit 16 b OR push_bit 12 c OR push_bit 8 d OR push_bit 4 e OR f"

lemma rrggbb_value_nib:
  "rrggbb_value a b c d e f = nib (nib (nib (nib (nib a b) c) d) e) f"
  by (simp add: rrggbb_value_def nib_def or.assoc)

lemma rgb_value_rrggbb: "rgb_value a b c = rrggbb_value a 0 b 0 c 0"
  by (simp add: rgb_value_def rrggbb_value_def)

lemma hexdigit_not_NUL: "hexdigit d \<noteq> NUL"
proof -
  have "nat (d mod 16) < length ''0123456789abcdef''" by simp
  then have "hexdigit d \<in> set ''0123456789abcdef''"
    unfolding hexdigit_def by (rule nth_mem)
  then show ?thesis by auto
qed

lemma hex_digits_not_NUL: "NUL \<notin> set (hex_digits k n)"
  by (induction k arbitrary: n) (simp_all add: hexdigit_not_NUL[symmetric])

lemma sprintf_06x_not_NUL: "NUL \<notin> set (sprintf_06x v)"
  unfolding sprintf_06x_def Let_def
  using hex_digits_not_NUL set_drop_subset by fastforce

lemma fz_strdup_store_string:
  "NUL \<notin> set ds \<Longrightarrow> fz_strdup (store_string xs ds) = ds"
  by (auto simp: fz_strdup_def store_string_def takeWhile_tail)

lemma css_lex_hash:
  "buf_c buf = CHR ''#'' \<Longrightarrow>
   css_lex buf = res_bind (css_lex_next (buf\<lparr>buf_string_len := 0\<rparr>)) css_lex_color"
  by (simp add: css_lex_def css_lex_restart_dispatch css_lex_dispatch_def css_lex_accept_def
        iswhite_def res_bind_assoc cong del: res_bind_weak_cong)

definition hexval :: "char \<Rightarrow> int" where
  "hexval h = (case ishex h of Some v \<Rightarrow> v | None \<Rightarrow> 0)"

lemma css_lex_accept_hex_unfold:
  "ishex (buf_c buf) \<noteq> None \<Longrightarrow>
     css_lex_accept_hex buf = res_bind (css_lex_next buf) (\<lambda>b. Inr (Some (hexval (buf_c buf)), b))"
  "ishex (buf_c buf) = None \<Longrightarrow> css_lex_accept_hex buf = Inr (None, buf)"
  by (auto simp: css_lex_accept_hex_def hexval_def cong del: res_bind_weak_cong)

lemma ishex_not_newline: "ishex h \<noteq> None \<Longrightarrow> h \<noteq> CHR 0x0A"
  by (auto simp: ishex_def)

lemma list6_cases:
  obtains "hs = []" | a where "hs = [a]" | a b where "hs = [a, b]"
  | a b c where "hs = [a, b, c]" | a b c d where "hs = [a, b, c, d]"
  | a b c d e where "hs = [a, b, c, d, e]"
  | a b c d e f more where "hs = a # b # c # d # e # f # more"
  by (metis list.exhaust)


lemma hexval_range: "0 \<le> hexval h \<and> hexval h < 16"
  using ishex_range[of h] by (auto simp: hexval_def split: option.splits)

lemma hex_digits_add:
  "0 \<le> n \<Longrightarrow> hex_digits (j + k) n = hex_digits j (n div 16 ^ k) @ hex_digits k n"
proof (induction k arbitrary: n)
  case 0
  then show ?case by simp
next
  case (Suc k)
  have "n div 16 div 16 ^ k = n div 16 ^ Suc k"
    by (simp add: zdiv_zmult2_eq)
  with Suc.IH[of "n div 16"] Suc.prems show ?case by simp
qed

lemma hex_digits_two_zero: "hex_digits 2 0 = [CHR ''0'', CHR ''0'']"
  by (simp add: numeral_2_eq_2 hexdigit_def)

lemma sprintf_06x_six:
  assumes "0 \<le> n" "n < 2 ^ 24"
  shows "sprintf_06x n = hex_digits 6 n"
proof -
  have m: "n mod 2 ^ 32 = n" using assms by simp
  have "hex_digits (2 + 6) n = hex_digits 2 (n div 16 ^ 6) @ hex_digits 6 n"
    using assms(1) by (rule hex_digits_add)
  moreover have "n div 16 ^ 6 = 0" using assms by simp
  moreover have "(2::nat) + 6 = 8" by simp
  ultimately have ds: "hex_digits 8 n = CHR ''0'' # CHR ''0'' # hex_digits 6 n"
    by (simp only: hex_digits_two_zero append_Cons append_Nil)
  show ?thesis unfolding sprintf_06x_def m ds Let_def by simp
qed

lemma rrggbb_value_range:
  assumes "0 \<le> a" "a < 16" "0 \<le> b" "b < 16" "0 \<le> c" "c < 16"
    "0 \<le> d" "d < 16" "0 \<le> e" "e < 16" "0 \<le> f" "f < 16"
  shows "0 \<le> rrggbb_value a b c d e f \<and> rrggbb_value a b c d e f < 2 ^ 24"
  using assms by (simp add: rrggbb_value_nib nib_eq)

lemma sprintf_06x_hexval:
  "sprintf_06x (rrggbb_value (hexval a) (hexval b) (hexval c) (hexval d) (hexval e) (hexval f))
     = hex_digits 6
         (rrggbb_value (hexval a) (hexval b) (hexval c) (hexval d) (hexval e) (hexval f))"
  "sprintf_06x (rgb_value (hexval a) (hexval b) (hexval c))
     = hex_digits 6 (rgb_value (hexval a) (hexval b) (hexval c))"
  using rrggbb_value_range[of "hexval a" "hexval b" "hexval c" "hexval d" "hexval e" "hexval f"]
    rrggbb_value_range[of "hexval a" 0 "hexval b" 0 "hexval c" 0]
    hexval_range[of a] hexval_range[of b] hexval_range[of c] hexval_range[of d]
    hexval_range[of e] hexval_range[of f]
  by (simp_all add: sprintf_06x_six rgb_value_rrggbb)

lemmas color_eval = lex_first_def css_lex_init_def css_lex_next_def css_lex_hash
  css_lex_color_def css_lex_accept_hex_unfold fz_css_error_def ishex_not_newline
  fz_strdup_store_string hex_digits_not_NUL rgb_value_def[symmetric] rrggbb_value_def[symmetric]
  sprintf_06x_hexval

lemma lex_first_color:
  assumes hs: "\<forall>h\<in>set hs. ishex h \<noteq> None"
    and stop: "length hs < 6 \<longrightarrow> ishex (hd (rest @ [NUL])) = None"
  shows "lex_first (CHR ''#'' # hs @ rest) =
    (if length hs = 3
     then Inr (CSS_COLOR, hex_digits 6 (rgb_value (hexval (hs ! 0)) (hexval (hs ! 1))
                                           (hexval (hs ! 2))))
     else if 6 \<le> length hs
     then Inr (CSS_COLOR, hex_digits 6 (rrggbb_value (hexval (hs ! 0)) (hexval (hs ! 1))
             (hexval (hs ! 2)) (hexval (hs ! 3)) (hexval (hs ! 4)) (hexval (hs ! 5))))
     else Inl (Css_syntax_error ''invalid color''
             (if hd (rest @ [NUL]) = CHR 0x0A then 2 else 1)))"
proof -
  obtain x r where xr: "rest @ [NUL] = x # r" by (cases rest) auto
  show ?thesis
  proof (cases hs rule: list6_cases)
    case 1
    then show ?thesis using stop by (simp add: color_eval xr)
  next
    case (2 a)
    then show ?thesis using hs stop by (simp add: color_eval xr)
  next
    case (3 a b)
    then show ?thesis using hs stop by (simp add: color_eval xr)
  next
    case (4 a b c)
    then show ?thesis using hs stop by (simp add: color_eval xr)
  next
    case (5 a b c d)
    then show ?thesis using hs stop by (simp add: color_eval xr)
  next
    case (6 a b c d e)
    then show ?thesis using hs stop by (simp add: color_eval xr)
  next
    case (7 a b c d e f more)
    obtain y q where "more @ rest @ [NUL] = y # q" by (cases more; cases rest) auto
    with 7 show ?thesis using hs by (simp add: color_eval)
  qed
qed


lemma color_examples:
  "hex_digits 6 (rgb_value (hexval (CHR ''a'')) (hexval (CHR ''B'')) (hexval (CHR ''9''))) =
     ''a0b090''"
  "hex_digits 6 (rrggbb_value (hexval (CHR ''0'')) (hexval (CHR ''1'')) (hexval (CHR ''c''))
     (hexval (CHR ''D'')) (hexval (CHR ''e'')) (hexval (CHR ''F''))) = ''01cdef''"
  by code_simp+


section \<open>Selector trees\<close>

text \<open>No selector is its own left child.\<close>

lemma selector_not_own_left: "s \<noteq> Css_selector n c cs (Some s) r"
proof
  assume "s = Css_selector n c cs (Some s) r"
  then have "size s = size (Css_selector n c cs (Some s) r)" by (rule arg_cong)
  then show False by simp
qed


section \<open>Skipping an at-rule\<close>

text \<open>
  The tokens that the parser sees from a state on: its lookahead, and the lookaheads that
  repeated \<^verbatim>\<open>next\<close> gives, up to \<open>EOF\<close>.
\<close>

function tokens :: "lexbuf \<Rightarrow> token list result" where
  "tokens buf =
    (if buf_lookahead buf = EOF then Inr []
     else res_bind (next_token buf) (\<lambda>b.
          res_bind (tokens b) (\<lambda>ts. Inr (buf_lookahead buf # ts))))"
  by pat_completeness auto
termination
  by (relation "measure msr") (auto dest!: ensuresD[OF ens_next_token])

declare tokens.simps [simp del]

text \<open>
  The skip as the specification describes it, on the tokens that follow \<^verbatim>\<open>@\<close> and the
  keyword: up to and including the first \<^verbatim>\<open>;\<close>, or up to the first \<^verbatim>\<open>{\<close> and on through its
  matching \<^verbatim>\<open>}\<close>, counting the nesting of braces; the end of the tokens ends either part.
  The result is the tokens that remain.
\<close>

fun skip_block :: "int \<Rightarrow> token list \<Rightarrow> token list" where
  "skip_block depth [] = []"
| "skip_block depth (t # ts) =
    (if depth \<le> 0 then t # ts
     else if t = Byte (CHR ''{'') then skip_block (depth + 1) ts
     else if t = Byte (CHR ''}'') then skip_block (depth - 1) ts
     else skip_block depth ts)"

fun skip_at_rule :: "token list \<Rightarrow> token list" where
  "skip_at_rule [] = []"
| "skip_at_rule (t # ts) =
    (if t = Byte (CHR '';'') then ts
     else if t = Byte (CHR ''{'') then skip_block 1 ts
     else skip_at_rule ts)"

lemma tokens_Nil: "tokens buf = Inr [] \<longleftrightarrow> buf_lookahead buf = EOF"
  by (subst tokens.simps) (auto simp: res_bind_Inr_iff)

lemma tokens_Cons:
  "tokens buf = Inr (t # ts) \<longleftrightarrow>
     buf_lookahead buf = t \<and> t \<noteq> EOF \<and> (\<exists>b. next_token buf = Inr b \<and> tokens b = Inr ts)"
  by (subst tokens.simps) (auto simp: res_bind_Inr_iff)

lemma parse_at_rule_block_tokens:
  "tokens buf = Inr ts \<Longrightarrow>
     \<exists>b. parse_at_rule_block buf depth = Inr b \<and> tokens b = Inr (skip_block depth ts)"
proof (induction ts arbitrary: buf depth)
  case Nil
  then have "buf_lookahead buf = EOF" by (simp add: tokens_Nil)
  with Nil show ?case by (subst parse_at_rule_block.simps) simp
next
  case (Cons t ts)
  then obtain b1 where t: "buf_lookahead buf = t" "t \<noteq> EOF"
    and b1: "next_token buf = Inr b1" "tokens b1 = Inr ts"
    by (auto simp: tokens_Cons)
  show ?case
  proof (cases "depth \<le> 0")
    case True
    with Cons.prems show ?thesis by (subst parse_at_rule_block.simps) simp
  next
    case False
    from Cons.IH[OF b1(2)] have ih: "\<And>d. \<exists>b. parse_at_rule_block b1 d = Inr b \<and>
        tokens b = Inr (skip_block d ts)" by blast
    from False t b1 ih[of "depth + 1"] ih[of "depth - 1"] ih[of depth] show ?thesis
      by (subst parse_at_rule_block.simps) (auto simp: accept_token_def)
  qed
qed

lemma parse_at_rule_skip_tokens:
  "tokens buf = Inr ts \<Longrightarrow>
     \<exists>b. parse_at_rule_skip buf = Inr b \<and> tokens b = Inr (skip_at_rule ts)"
proof (induction ts arbitrary: buf)
  case Nil
  then have "buf_lookahead buf = EOF" by (simp add: tokens_Nil)
  with Nil show ?case by (subst parse_at_rule_skip.simps) simp
next
  case (Cons t ts)
  then obtain b1 where t: "buf_lookahead buf = t" "t \<noteq> EOF"
    and b1: "next_token buf = Inr b1" "tokens b1 = Inr ts"
    by (auto simp: tokens_Cons)
  from t b1 Cons.IH[OF b1(2)] parse_at_rule_block_tokens[OF b1(2), of 1] show ?case
    by (subst parse_at_rule_skip.simps) (auto simp: accept_token_def)
qed

lemma parse_at_rule_tokens:
  assumes "tokens buf = Inr (CSS_KEYWORD # ts)"
  shows "\<exists>b. parse_at_rule buf = Inr b \<and> tokens b = Inr (skip_at_rule ts)"
proof -
  from assms obtain b1 where "buf_lookahead buf = CSS_KEYWORD"
    and b1: "next_token buf = Inr b1" "tokens b1 = Inr ts"
    by (auto simp: tokens_Cons)
  with parse_at_rule_skip_tokens[OF b1(2)] show ?thesis
    by (simp add: parse_at_rule_def expect_token_def accept_token_def)
qed

lemma parse_stylesheet_loop_at_rule:
  assumes "tokens buf = Inr (Byte (CHR ''@'') # CSS_KEYWORD # ts)"
  shows "\<exists>b. tokens b = Inr (skip_at_rule ts) \<and>
           parse_stylesheet_loop buf rules = parse_stylesheet_loop b rules"
proof -
  from assms obtain b1 where "buf_lookahead buf = Byte (CHR ''@'')"
    and b1: "next_token buf = Inr b1" "tokens b1 = Inr (CSS_KEYWORD # ts)"
    by (auto simp: tokens_Cons)
  with parse_at_rule_tokens[OF b1(2)] show ?thesis
    by (subst parse_stylesheet_loop.simps) (auto simp: accept_token_def)
qed


section \<open>The declarations behind the first one\<close>







section \<open>The claims\<close>

text \<open>
  C1. The claim: after \<^verbatim>\<open>url(\<close> the lexer discards any payload up to the first \<^verbatim>\<open>)\<close> and
  emits \<^verbatim>\<open>CSS_URI\<close>, so that \<^verbatim>\<open>p { background: url(foo.png) }\<close> parses. The code does not do
  this: after \<^verbatim>\<open>url(\<close> it calls \<^verbatim>\<open>css_lex_expect(buf, ')')\<close> at once (under the comment
  \<^verbatim>\<open>// string or url\<close>), so any payload byte is an "unexpected character". The theorem runs
  the lexer and the parser on the claim's input; only the empty \<^verbatim>\<open>url()\<close> is a \<^verbatim>\<open>CSS_URI\<close>.
\<close>

theorem url_payload_is_rejected:
  "lex_first ''url(foo.png)'' = Inl (Css_syntax_error ''unexpected character'' 1) \<and>
   fz_parse_css [] ''p { background: url(foo.png) }'' =
     Inl (Css_syntax_error ''unexpected character'' 1) \<and>
   lex_first ''url()'' = Inr (CSS_URI, [])"
  by code_simp

text \<open>
  C2. The claim: a condition written \<^verbatim>\<open>#\<close> and a keyword parses into a condition of type
  \<^verbatim>\<open>'#'\<close> with key \<^verbatim>\<open>"id"\<close>. \<^verbatim>\<open>parse_condition\<close> has that branch, but the lexer never hands
  it a \<^verbatim>\<open>'#'\<close> token: \<^verbatim>\<open>css_lex\<close> takes every \<^verbatim>\<open>#\<close> as the start of a color. An id that
  is not made of hex digits fails in the lexer; one that is becomes a \<^verbatim>\<open>CSS_COLOR\<close> token,
  which no selector accepts.
\<close>

theorem id_selector_is_rejected:
  "fz_parse_css [] ''#myid { x: y }'' = Inl (Css_syntax_error ''invalid color'' 1) \<and>
   fz_parse_css [] ''p#myid { x: y }'' = Inl (Css_syntax_error ''invalid color'' 1) \<and>
   fz_parse_css [] ''#abc { x: y }'' = Inl (Css_syntax_error ''expected selector'' 1)"
  by code_simp




text \<open>
  C6. For stylesheets \<open>A\<close> and \<open>B\<close> that parse, \<^verbatim>\<open>fz_parse_css(fz_parse_css(NULL, A), B)\<close>
  gives the rules of \<open>A\<close> in order followed by the rules of \<open>B\<close> in order, and its head is
  the head of the chain of \<open>A\<close> when that chain is not empty.
\<close>

theorem stylesheets_concatenate:
  assumes "fz_parse_css [] A = Inr ra" and "fz_parse_css [] B = Inr rb"
  shows "res_bind (fz_parse_css [] A) (\<lambda>chain. fz_parse_css chain B) = Inr (ra @ rb) \<and>
         (ra \<noteq> [] \<longrightarrow> hd (ra @ rb) = hd ra)"
  using assms fz_parse_css_append[of ra B] by simp

theorem stylesheets_concatenate_witness:
  "res_bind (fz_parse_css [] ''p { x: y } a { b: c }'') (\<lambda>chain. fz_parse_css chain ''q { z: w }'') =
     Inr ([Css_rule [Css_selector (Some ''p'') NUL [] None None]
            [Css_property ''x'' [Css_value CSS_KEYWORD ''y'' []] 0] [],
          Css_rule [Css_selector (Some ''a'') NUL [] None None]
            [Css_property ''b'' [Css_value CSS_KEYWORD ''c'' []] 0] []] @
         [Css_rule [Css_selector (Some ''q'') NUL [] None None]
            [Css_property ''z'' [Css_value CSS_KEYWORD ''w'' []] 0] []])"
proof -
  have a: "fz_parse_css [] ''p { x: y } a { b: c }'' =
     Inr [Css_rule [Css_selector (Some ''p'') NUL [] None None]
            [Css_property ''x'' [Css_value CSS_KEYWORD ''y'' []] 0] [],
          Css_rule [Css_selector (Some ''a'') NUL [] None None]
            [Css_property ''b'' [Css_value CSS_KEYWORD ''c'' []] 0] []]"
    by code_simp
  have b: "fz_parse_css [] ''q { z: w }'' =
     Inr [Css_rule [Css_selector (Some ''q'') NUL [] None None]
            [Css_property ''z'' [Css_value CSS_KEYWORD ''w'' []] 0] []]"
    by code_simp
  from stylesheets_concatenate[OF a b] show ?thesis by blast
qed


text \<open>
  C7. Let the tokens from a state on be \<^verbatim>\<open>@\<close>, a keyword and then \<open>ts\<close>. The stylesheet loop
  accepts the \<^verbatim>\<open>@\<close>, \<^verbatim>\<open>parse_at_rule\<close> takes the keyword and skips \<open>ts\<close> up to and including
  the first \<^verbatim>\<open>;\<close>, or up to the first \<^verbatim>\<open>{\<close> and on through its matching \<^verbatim>\<open>}\<close> at any depth of
  nesting (a \<^verbatim>\<open>;\<close> inside the block does not end it); when the tokens end first, the skip
  ends there without an error. The loop then goes on from the tokens that remain, with the
  rules it had: the at-rule adds none. The last line is the claim's example.
\<close>

theorem at_rule_is_skipped:
  "(tokens buf = Inr (CSS_KEYWORD # ts) \<longrightarrow>
      (\<exists>b. parse_at_rule buf = Inr b \<and> tokens b = Inr (skip_at_rule ts))) \<and>
   (tokens buf = Inr (Byte (CHR ''@'') # CSS_KEYWORD # ts) \<longrightarrow>
      (\<exists>b. tokens b = Inr (skip_at_rule ts) \<and>
           parse_stylesheet_loop buf rules = parse_stylesheet_loop b rules)) \<and>
   fz_parse_css [] ''@media print { p { x: y } } q { z: w }'' =
     Inr [Css_rule [Css_selector (Some ''q'') NUL [] None None]
            [Css_property ''z'' [Css_value CSS_KEYWORD ''w'' []] 0] []]"
proof (intro conjI impI)
  assume "tokens buf = Inr (CSS_KEYWORD # ts)"
  then show "\<exists>b. parse_at_rule buf = Inr b \<and> tokens b = Inr (skip_at_rule ts)"
    by (rule parse_at_rule_tokens)
next
  assume "tokens buf = Inr (Byte (CHR ''@'') # CSS_KEYWORD # ts)"
  then show "\<exists>b. tokens b = Inr (skip_at_rule ts) \<and>
           parse_stylesheet_loop buf rules = parse_stylesheet_loop b rules"
    by (rule parse_stylesheet_loop_at_rule)
next
  show "fz_parse_css [] ''@media print { p { x: y } } q { z: w }'' =
     Inr [Css_rule [Css_selector (Some ''q'') NUL [] None None]
            [Css_property ''z'' [Css_value CSS_KEYWORD ''w'' []] 0] []]"
    by code_simp
qed

theorem at_rule_is_skipped_witness:
  "\<exists>b. tokens b = Inr [CSS_KEYWORD, Byte (CHR ''{''), CSS_KEYWORD, Byte (CHR '':''),
                       CSS_KEYWORD, Byte (CHR ''}'')] \<and>
       parse_stylesheet_loop
         \<lparr>buf_s = '' a { b { c { d } ; } } q { z: w }'' @ [NUL], buf_line = 1,
            buf_lookahead = Byte (CHR ''@''), buf_c = CHR ''m'', buf_color = 0,
            buf_string_len = 0, buf_string = []\<rparr> [] =
       parse_stylesheet_loop b []"
proof -
  let ?B = "\<lparr>buf_s = '' a { b { c { d } ; } } q { z: w }'' @ [NUL], buf_line = 1,
            buf_lookahead = Byte (CHR ''@''), buf_c = CHR ''m'', buf_color = 0,
            buf_string_len = 0, buf_string = []\<rparr>"
  let ?ts = "[CSS_KEYWORD, Byte (CHR ''{''), CSS_KEYWORD, Byte (CHR ''{''), CSS_KEYWORD,
       Byte (CHR ''{''), CSS_KEYWORD, Byte (CHR ''}''), Byte (CHR '';''), Byte (CHR ''}''),
       Byte (CHR ''}''), CSS_KEYWORD, Byte (CHR ''{''), CSS_KEYWORD, Byte (CHR '':''),
       CSS_KEYWORD, Byte (CHR ''}'')]"
  have t: "tokens ?B = Inr (Byte (CHR ''@'') # CSS_KEYWORD # ?ts)"
    by code_simp
  from at_rule_is_skipped[of ?B ?ts "[]"] t show ?thesis by simp
qed


text \<open>
  C9. Each combinator level takes one operand and, when its separator follows, recurses into
  itself for the whole rest: three operands joined by the same combinator (\<^verbatim>\<open>+\<close>, \<^verbatim>\<open>>\<close>, or
  nothing but white space) give the node with that \<^verbatim>\<open>combine\<close> code, no name and no
  conditions, whose \<^verbatim>\<open>left\<close> is the first operand and whose \<^verbatim>\<open>right\<close> is the node of the
  second and the third, as in \<^verbatim>\<open>a > (b > c)\<close>; it is not the tree whose \<^verbatim>\<open>left\<close> is the node of
  the first and the second. The operands of a level are what the next level parses (simple
  selectors for \<^verbatim>\<open>+\<close>).
\<close>

theorem combinators_nest_to_the_right:
  "(parse_simple_selector buf = Inr (s1, b1) \<longrightarrow> buf_lookahead b1 = Byte (CHR ''+'') \<longrightarrow>
      next_token b1 = Inr c1 \<longrightarrow>
    parse_simple_selector c1 = Inr (s2, b2) \<longrightarrow> buf_lookahead b2 = Byte (CHR ''+'') \<longrightarrow>
      next_token b2 = Inr c2 \<longrightarrow>
    parse_simple_selector c2 = Inr (s3, b3) \<longrightarrow> buf_lookahead b3 \<noteq> Byte (CHR ''+'') \<longrightarrow>
    parse_adjacent_selector buf =
      Inr (Css_selector None (CHR ''+'') [] (Some s1) (Some (Css_selector None (CHR ''+'') [] (Some s2) (Some s3))), b3) \<and>
    parse_adjacent_selector buf \<noteq>
      Inr (Css_selector None (CHR ''+'') [] (Some (Css_selector None (CHR ''+'') [] (Some s1) (Some s2))) (Some s3), b3)) \<and>
   (parse_adjacent_selector buf = Inr (s1, b1) \<longrightarrow> buf_lookahead b1 = Byte (CHR ''>'') \<longrightarrow>
      next_token b1 = Inr c1 \<longrightarrow>
    parse_adjacent_selector c1 = Inr (s2, b2) \<longrightarrow> buf_lookahead b2 = Byte (CHR ''>'') \<longrightarrow>
      next_token b2 = Inr c2 \<longrightarrow>
    parse_adjacent_selector c2 = Inr (s3, b3) \<longrightarrow> buf_lookahead b3 \<noteq> Byte (CHR ''>'') \<longrightarrow>
    parse_child_selector buf =
      Inr (Css_selector None (CHR ''>'') [] (Some s1) (Some (Css_selector None (CHR ''>'') [] (Some s2) (Some s3))), b3) \<and>
    parse_child_selector buf \<noteq>
      Inr (Css_selector None (CHR ''>'') [] (Some (Css_selector None (CHR ''>'') [] (Some s1) (Some s2))) (Some s3), b3)) \<and>
   (parse_child_selector buf = Inr (s1, b1) \<longrightarrow>
      buf_lookahead b1 \<notin> {Byte (CHR '',''), Byte (CHR ''{''), EOF} \<longrightarrow>
    parse_child_selector b1 = Inr (s2, b2) \<longrightarrow>
      buf_lookahead b2 \<notin> {Byte (CHR '',''), Byte (CHR ''{''), EOF} \<longrightarrow>
    parse_child_selector b2 = Inr (s3, b3) \<longrightarrow>
      buf_lookahead b3 \<in> {Byte (CHR '',''), Byte (CHR ''{''), EOF} \<longrightarrow>
    parse_descendant_selector buf =
      Inr (Css_selector None (CHR '' '') [] (Some s1) (Some (Css_selector None (CHR '' '') [] (Some s2) (Some s3))), b3) \<and>
    parse_descendant_selector buf \<noteq>
      Inr (Css_selector None (CHR '' '') [] (Some (Css_selector None (CHR '' '') [] (Some s1) (Some s2))) (Some s3), b3))"
  by (simp add: parse_adjacent_selector.simps[of buf] parse_adjacent_selector.simps[of c1]
        parse_adjacent_selector.simps[of c2]
        parse_child_selector.simps[of buf] parse_child_selector.simps[of c1]
        parse_child_selector.simps[of c2]
        parse_descendant_selector.simps[of buf] parse_descendant_selector.simps[of b1]
        parse_descendant_selector.simps[of b2] accept_token_def combinator_def
        selector_not_own_left)

theorem combinators_nest_to_the_right_witness:
  "parse_adjacent_selector
      \<lparr>buf_s = [CHR ''b'', CHR ''+'', CHR ''c'', CHR ''{'', NUL], buf_line = 1, buf_lookahead = CSS_KEYWORD, buf_c = CHR ''+'', buf_color = 0, buf_string_len = 2, buf_string = [CHR ''a'', NUL]\<rparr> =
    Inr (Css_selector None (CHR ''+'') [] (Some (Css_selector (Some ''a'') NUL [] None None)) (Some (Css_selector None (CHR ''+'') [] (Some (Css_selector (Some ''b'') NUL [] None None)) (Some (Css_selector (Some ''c'') NUL [] None None)))),
      \<lparr>buf_s = [], buf_line = 1, buf_lookahead = Byte (CHR ''{''), buf_c = NUL, buf_color = 0, buf_string_len = 0, buf_string = [CHR ''c'', NUL]\<rparr>) \<and>
   parse_child_selector
      \<lparr>buf_s = [CHR ''b'', CHR ''>'', CHR ''c'', CHR ''{'', NUL], buf_line = 1, buf_lookahead = CSS_KEYWORD, buf_c = CHR ''>'', buf_color = 0, buf_string_len = 2, buf_string = [CHR ''a'', NUL]\<rparr> =
    Inr (Css_selector None (CHR ''>'') [] (Some (Css_selector (Some ''a'') NUL [] None None)) (Some (Css_selector None (CHR ''>'') [] (Some (Css_selector (Some ''b'') NUL [] None None)) (Some (Css_selector (Some ''c'') NUL [] None None)))),
      \<lparr>buf_s = [], buf_line = 1, buf_lookahead = Byte (CHR ''{''), buf_c = NUL, buf_color = 0, buf_string_len = 0, buf_string = [CHR ''c'', NUL]\<rparr>) \<and>
   parse_descendant_selector
      \<lparr>buf_s = [CHR ''b'', CHR '' '', CHR ''c'', CHR ''{'', NUL], buf_line = 1, buf_lookahead = CSS_KEYWORD, buf_c = CHR '' '', buf_color = 0, buf_string_len = 2, buf_string = [CHR ''a'', NUL]\<rparr> =
    Inr (Css_selector None (CHR '' '') [] (Some (Css_selector (Some ''a'') NUL [] None None)) (Some (Css_selector None (CHR '' '') [] (Some (Css_selector (Some ''b'') NUL [] None None)) (Some (Css_selector (Some ''c'') NUL [] None None)))),
      \<lparr>buf_s = [], buf_line = 1, buf_lookahead = Byte (CHR ''{''), buf_c = NUL, buf_color = 0, buf_string_len = 0, buf_string = [CHR ''c'', NUL]\<rparr>)"
proof (intro conjI)
  let ?buf = "\<lparr>buf_s = [CHR ''b'', CHR ''+'', CHR ''c'', CHR ''{'', NUL], buf_line = 1, buf_lookahead = CSS_KEYWORD, buf_c = CHR ''+'', buf_color = 0, buf_string_len = 2, buf_string = [CHR ''a'', NUL]\<rparr>"
  let ?s1 = "Css_selector (Some ''a'') NUL [] None None"
  let ?b1 = "\<lparr>buf_s = [CHR ''+'', CHR ''c'', CHR ''{'', NUL], buf_line = 1, buf_lookahead = Byte (CHR ''+''), buf_c = CHR ''b'', buf_color = 0, buf_string_len = 0, buf_string = [CHR ''a'', NUL]\<rparr>"
  let ?c1 = "\<lparr>buf_s = [CHR ''c'', CHR ''{'', NUL], buf_line = 1, buf_lookahead = CSS_KEYWORD, buf_c = CHR ''+'', buf_color = 0, buf_string_len = 2, buf_string = [CHR ''b'', NUL]\<rparr>"
  let ?s2 = "Css_selector (Some ''b'') NUL [] None None"
  let ?b2 = "\<lparr>buf_s = [CHR ''{'', NUL], buf_line = 1, buf_lookahead = Byte (CHR ''+''), buf_c = CHR ''c'', buf_color = 0, buf_string_len = 0, buf_string = [CHR ''b'', NUL]\<rparr>"
  let ?c2 = "\<lparr>buf_s = [NUL], buf_line = 1, buf_lookahead = CSS_KEYWORD, buf_c = CHR ''{'', buf_color = 0, buf_string_len = 2, buf_string = [CHR ''c'', NUL]\<rparr>"
  let ?s3 = "Css_selector (Some ''c'') NUL [] None None"
  let ?b3 = "\<lparr>buf_s = [], buf_line = 1, buf_lookahead = Byte (CHR ''{''), buf_c = NUL, buf_color = 0, buf_string_len = 0, buf_string = [CHR ''c'', NUL]\<rparr>"
  have h1: "parse_simple_selector ?buf = Inr (?s1, ?b1)" by code_simp
  have h2: "next_token ?b1 = Inr ?c1" by code_simp
  have h3: "parse_simple_selector ?c1 = Inr (?s2, ?b2)" by code_simp
  have h4: "next_token ?b2 = Inr ?c2" by code_simp
  have h5: "parse_simple_selector ?c2 = Inr (?s3, ?b3)" by code_simp
  from combinators_nest_to_the_right[of ?buf ?s1 ?b1 ?c1 ?s2 ?b2 ?c2 ?s3 ?b3] h1 h2 h3 h4 h5
  show "parse_adjacent_selector ?buf = Inr (Css_selector None (CHR ''+'') [] (Some (Css_selector (Some ''a'') NUL [] None None)) (Some (Css_selector None (CHR ''+'') [] (Some (Css_selector (Some ''b'') NUL [] None None)) (Some (Css_selector (Some ''c'') NUL [] None None)))), ?b3)"
    by simp
next
  let ?buf = "\<lparr>buf_s = [CHR ''b'', CHR ''>'', CHR ''c'', CHR ''{'', NUL], buf_line = 1, buf_lookahead = CSS_KEYWORD, buf_c = CHR ''>'', buf_color = 0, buf_string_len = 2, buf_string = [CHR ''a'', NUL]\<rparr>"
  let ?s1 = "Css_selector (Some ''a'') NUL [] None None"
  let ?b1 = "\<lparr>buf_s = [CHR ''>'', CHR ''c'', CHR ''{'', NUL], buf_line = 1, buf_lookahead = Byte (CHR ''>''), buf_c = CHR ''b'', buf_color = 0, buf_string_len = 0, buf_string = [CHR ''a'', NUL]\<rparr>"
  let ?c1 = "\<lparr>buf_s = [CHR ''c'', CHR ''{'', NUL], buf_line = 1, buf_lookahead = CSS_KEYWORD, buf_c = CHR ''>'', buf_color = 0, buf_string_len = 2, buf_string = [CHR ''b'', NUL]\<rparr>"
  let ?s2 = "Css_selector (Some ''b'') NUL [] None None"
  let ?b2 = "\<lparr>buf_s = [CHR ''{'', NUL], buf_line = 1, buf_lookahead = Byte (CHR ''>''), buf_c = CHR ''c'', buf_color = 0, buf_string_len = 0, buf_string = [CHR ''b'', NUL]\<rparr>"
  let ?c2 = "\<lparr>buf_s = [NUL], buf_line = 1, buf_lookahead = CSS_KEYWORD, buf_c = CHR ''{'', buf_color = 0, buf_string_len = 2, buf_string = [CHR ''c'', NUL]\<rparr>"
  let ?s3 = "Css_selector (Some ''c'') NUL [] None None"
  let ?b3 = "\<lparr>buf_s = [], buf_line = 1, buf_lookahead = Byte (CHR ''{''), buf_c = NUL, buf_color = 0, buf_string_len = 0, buf_string = [CHR ''c'', NUL]\<rparr>"
  have h1: "parse_adjacent_selector ?buf = Inr (?s1, ?b1)" by code_simp
  have h2: "next_token ?b1 = Inr ?c1" by code_simp
  have h3: "parse_adjacent_selector ?c1 = Inr (?s2, ?b2)" by code_simp
  have h4: "next_token ?b2 = Inr ?c2" by code_simp
  have h5: "parse_adjacent_selector ?c2 = Inr (?s3, ?b3)" by code_simp
  from combinators_nest_to_the_right[of ?buf ?s1 ?b1 ?c1 ?s2 ?b2 ?c2 ?s3 ?b3] h1 h2 h3 h4 h5
  show "parse_child_selector ?buf = Inr (Css_selector None (CHR ''>'') [] (Some (Css_selector (Some ''a'') NUL [] None None)) (Some (Css_selector None (CHR ''>'') [] (Some (Css_selector (Some ''b'') NUL [] None None)) (Some (Css_selector (Some ''c'') NUL [] None None)))), ?b3)"
    by simp
next
  let ?buf = "\<lparr>buf_s = [CHR ''b'', CHR '' '', CHR ''c'', CHR ''{'', NUL], buf_line = 1, buf_lookahead = CSS_KEYWORD, buf_c = CHR '' '', buf_color = 0, buf_string_len = 2, buf_string = [CHR ''a'', NUL]\<rparr>"
  let ?s1 = "Css_selector (Some ''a'') NUL [] None None"
  let ?b1 = "\<lparr>buf_s = [CHR ''c'', CHR ''{'', NUL], buf_line = 1, buf_lookahead = CSS_KEYWORD, buf_c = CHR '' '', buf_color = 0, buf_string_len = 2, buf_string = [CHR ''b'', NUL]\<rparr>"
  let ?s2 = "Css_selector (Some ''b'') NUL [] None None"
  let ?b2 = "\<lparr>buf_s = [NUL], buf_line = 1, buf_lookahead = CSS_KEYWORD, buf_c = CHR ''{'', buf_color = 0, buf_string_len = 2, buf_string = [CHR ''c'', NUL]\<rparr>"
  let ?s3 = "Css_selector (Some ''c'') NUL [] None None"
  let ?b3 = "\<lparr>buf_s = [], buf_line = 1, buf_lookahead = Byte (CHR ''{''), buf_c = NUL, buf_color = 0, buf_string_len = 0, buf_string = [CHR ''c'', NUL]\<rparr>"
  have h1: "parse_child_selector ?buf = Inr (?s1, ?b1)" by code_simp
  have h2: "parse_child_selector ?b1 = Inr (?s2, ?b2)" by code_simp
  have h3: "parse_child_selector ?b2 = Inr (?s3, ?b3)" by code_simp
  from combinators_nest_to_the_right[of ?buf ?s1 ?b1 _ ?s2 ?b2 _ ?s3 ?b3] h1 h2 h3
  show "parse_descendant_selector ?buf = Inr (Css_selector None (CHR '' '') [] (Some (Css_selector (Some ''a'') NUL [] None None)) (Some (Css_selector None (CHR '' '') [] (Some (Css_selector (Some ''b'') NUL [] None None)) (Some (Css_selector (Some ''c'') NUL [] None None)))), ?b3)"
    by simp
qed


text \<open>
  C3. The claim: a keyword of 1023 bytes is accepted and one of 1024 bytes is rejected.
  \<^verbatim>\<open>css_push_char\<close> refuses a byte when \<^verbatim>\<open>string_len + 1 >= 1024\<close>, and the terminating NUL
  goes through it as well, so 1023 bytes is the most that is ever stored, NUL included: a
  keyword of 1022 bytes is the longest that lexes, and one of 1023 bytes fails with "token
  too long". The theorem is stated for a keyword \<open>w\<close> that begins with a name-start byte other
  than \<^verbatim>\<open>u\<close> (which the lexer first tries as \<^verbatim>\<open>url(\<close>) and is followed by a byte that ends it.
\<close>

theorem keyword_length_limit:
  assumes "w \<noteq> []" and "isnmstart (hd w)" and "hd w \<noteq> CHR ''u''"
    and "\<forall>c\<in>set (tl w). isnmchar c" and "\<not> isnmchar (hd (rest @ [NUL]))"
  shows "(length w \<le> 1022 \<longrightarrow> lex_first (w @ rest) = Inr (CSS_KEYWORD, w)) \<and>
    (1023 \<le> length w \<longrightarrow>
       (\<exists>line. lex_first (w @ rest) = Inl (Css_syntax_error ''token too long'' line)))"
  using lex_first_keyword[OF assms] by auto

theorem keyword_length_limit_witness:
  "lex_first (replicate 1022 (CHR ''a'')) = Inr (CSS_KEYWORD, replicate 1022 (CHR ''a'')) \<and>
   (\<exists>line. lex_first (replicate 1023 (CHR ''a'') @ ''{'') =
      Inl (Css_syntax_error ''token too long'' line))"
  using keyword_length_limit[of "replicate 1022 (CHR ''a'')" "[]"]
    keyword_length_limit[of "replicate 1023 (CHR ''a'')" "''{''"]
  by (simp add: isnmstart_def isnmchar_def)

theorem keyword_of_1023_bytes_counterexample:
  "lex_first (replicate 1023 (CHR ''a'')) = Inl (Css_syntax_error ''token too long'' 1)"
  using lex_first_keyword[of "replicate 1023 (CHR ''a'')" "[]"]
  by (simp add: isnmstart_def isnmchar_def)

text \<open>
  Claim C4. Let the \<^verbatim>\<open>#\<close> be followed by hex digits \<open>hs\<close> and then, when there are fewer
  than six of them, by a byte that is not a hex digit (possibly the terminator). With exactly
  three hex digits the lexer returns \<^verbatim>\<open>CSS_COLOR\<close> and the six lowercase hex digits of
  \<^verbatim>\<open>(a<<20)|(b<<12)|(c<<4)\<close>; with six or more it returns \<^verbatim>\<open>CSS_COLOR\<close> and the six
  lowercase hex digits of \<^verbatim>\<open>(a<<20)|(b<<16)|(c<<12)|(d<<8)|(e<<4)|f\<close> of the first six; with
  fewer than three, or with four or five, it fails with "invalid color".
\<close>

theorem color_tokens:
  assumes "\<forall>h\<in>set hs. ishex h \<noteq> None"
    and "length hs < 6 \<longrightarrow> ishex (hd (rest @ [NUL])) = None"
  shows "lex_first (CHR ''#'' # hs @ rest) =
    (if length hs = 3
     then Inr (CSS_COLOR, hex_digits 6 (rgb_value (hexval (hs ! 0)) (hexval (hs ! 1))
                                           (hexval (hs ! 2))))
     else if 6 \<le> length hs
     then Inr (CSS_COLOR, hex_digits 6 (rrggbb_value (hexval (hs ! 0)) (hexval (hs ! 1))
             (hexval (hs ! 2)) (hexval (hs ! 3)) (hexval (hs ! 4)) (hexval (hs ! 5))))
     else Inl (Css_syntax_error ''invalid color''
             (if hd (rest @ [NUL]) = CHR 0x0A then 2 else 1)))"
  using assms by (rule lex_first_color)

theorem color_tokens_witness:
  "lex_first ''#aB9;'' = Inr (CSS_COLOR, ''a0b090'') \<and>
   lex_first ''#01cDeF'' = Inr (CSS_COLOR, ''01cdef'') \<and>
   lex_first ''#12 '' = Inl (Css_syntax_error ''invalid color'' 1) \<and>
   lex_first ''#1234;'' = Inl (Css_syntax_error ''invalid color'' 1)"
  using color_tokens[of "''aB9''" "'';''"] color_tokens[of "''01cDeF''" "[]"]
    color_tokens[of "''12''" "'' ''"] color_tokens[of "''1234''" "'';''"]
  by (simp add: ishex_def color_examples)

end
